theory Spec2Isabelle
  imports Main "HOL-Library.AList" "HOL-Library.Multiset" "HOL-Library.List_Lexorder"
    "HOL-Library.Product_Lexorder"
begin

section \<open>Text, paths and the directory tree\<close>

text \<open>
  A Python \<open>str\<close> is a sequence of code points; a \<open>Path\<close> is handled through its
  \<open>parts\<close>, the tuple of its segments. The bytes of a file are a list of \<open>char\<close>
  (an 8-bit value). \<open>ustr\<close> turns an ASCII literal of the source into a \<open>str\<close>.
  Comparison of \<open>str\<close> values and of \<open>parts\<close> tuples is lexicographic, which is what
  Python's \<open><\<close> does on \<open>str\<close> and on pure POSIX paths.
\<close>

type_synonym str = "nat list"

type_synonym path = "str list"

definition ustr :: "string \<Rightarrow> str" where
  "ustr s = map of_char s"

definition NL :: nat where
  "NL = 10"

definition CR :: nat where
  "CR = 13"

text \<open>\<^verbatim>\<open>exclude_dirs = {'node_modules', '.next', 'dist', '.git'}\<close>\<close>

definition exclude_dirs :: "str set" where
  "exclude_dirs = {ustr ''node_modules'', ustr ''.next'', ustr ''dist'', ustr ''.git''}"

text \<open>
  The directory below the root as \<open>os.walk\<close> sees it: an entry is a directory, with
  its entries in listing order, or anything else, which \<open>os.walk\<close> reports among the
  file names (the regular files, in a directory of sources). A directory that
  \<open>os.walk\<close> lists but does not enter (a link to a directory, a directory it cannot
  read) yields nothing, as an empty directory does.
\<close>

datatype node = File | Dir "(str \<times> node) list"

text \<open>\<^verbatim>\<open>output = root / '_repo_export.txt'\<close>\<close>

definition output_name :: str where
  "output_name = ustr ''_repo_export.txt''"

text \<open>The outcome of opening a file and reading all its bytes.\<close>

datatype io_result = Bytes string | OSError str

text \<open>
  What a run finds around it:
  \<^item> \<open>root\<close>: the parts of \<open>Path('.').resolve()\<close>, the anchor first;
  \<^item> \<open>tree\<close>: the directory at \<open>root\<close>;
  \<^item> \<open>rd p k\<close>: what reading the file at \<open>p\<close> gives during the dump, \<open>k = 0\<close> at the
    first attempt and \<open>k = 1\<close> at the retry (a file may vanish in between);
  \<^item> \<open>flushed w\<close>: how many bytes have reached the output file, of the encoding of
    the text \<open>w\<close> written to it so far, when the file is read while it is open for
    writing (a matter of buffering);
  \<^item> \<open>lower\<close>: \<open>str.lower\<close>.
\<close>

record env =
  root :: path
  tree :: node
  rd :: "path \<Rightarrow> nat \<Rightarrow> io_result"
  flushed :: "str \<Rightarrow> nat"
  lower :: "str \<Rightarrow> str"

definition output_path :: "env \<Rightarrow> path" where
  "output_path e = root e @ [output_name]"

section \<open>Collector\<close>

text \<open>
  \<^verbatim>\<open>
  for dirpath, dirnames, filenames in os.walk(root):
      dirnames[:] = [d for d in dirnames if d not in exclude_dirs]
      for name in filenames:
          p = Path(dirpath) / name
          if any(part in exclude_dirs for part in p.parts):
              continue
          files.append(p)
  \<close>
  \<open>os.walk\<close> is top-down: the files of a directory come first, then each remaining
  sub-directory in listing order.
\<close>

definition dirnames :: "(str \<times> node) list \<Rightarrow> (str \<times> node) list" where
  "dirnames es = filter (\<lambda>(d, n). n \<noteq> File) es"

definition filenames :: "(str \<times> node) list \<Rightarrow> str list" where
  "filenames es = map fst (filter (\<lambda>(d, n). n = File) es)"

lemma size_dirnames [termination_simp]:
  "(d, n) \<in> set (dirnames es) \<Longrightarrow> size n < Suc (size_list (\<lambda>x. Suc (size (snd x))) es)"
  by (induction es) (auto simp: dirnames_def split: if_splits)

fun walk :: "path \<Rightarrow> node \<Rightarrow> path list" where
  "walk dirpath File = []"
| "walk dirpath (Dir es) =
     filter (\<lambda>p. \<not> (\<exists>part \<in> set p. part \<in> exclude_dirs))
       (map (\<lambda>name. dirpath @ [name]) (filenames es))
     @ concat (map (\<lambda>(d, n). walk (dirpath @ [d]) n)
         (filter (\<lambda>(d, n). d \<notin> exclude_dirs) (dirnames es)))"

definition files :: "env \<Rightarrow> path list" where
  "files e = walk (root e) (tree e)"

section \<open>Tree renderer\<close>

text \<open>
  \<open>p.relative_to(root)\<close> raises \<open>ValueError\<close> (here \<open>None\<close>) when \<open>p\<close> does not lie
  under \<open>root\<close>.
\<close>

definition relative_to :: "path \<Rightarrow> path \<Rightarrow> path option" where
  "relative_to p r = (if take (length r) p = r then Some (drop (length r) p) else None)"

text \<open>
  \<open>children\<close> is a \<open>defaultdict(list)\<close> keyed by tuples of parts: an association list
  in insertion order. \<open>children.get(parent, [])\<close> is \<open>children_get\<close>; reading
  \<open>children[parent]\<close> of a missing key stores the empty list, to which the child is
  then appended.
  \<^verbatim>\<open>
  for p in files:
      rel = p.relative_to(root)
      parts = rel.parts
      for i in range(len(parts)):
          parent = parts[:i]
          child = parts[i]
          if child not in children[parent]:
              children[parent].append(child)
  \<close>
\<close>

type_synonym child_index = "(path \<times> str list) list"

definition children_get :: "child_index \<Rightarrow> path \<Rightarrow> str list" where
  "children_get ch parent = (case map_of ch parent of None \<Rightarrow> [] | Some es \<Rightarrow> es)"

definition register :: "path \<Rightarrow> str \<Rightarrow> child_index \<Rightarrow> child_index" where
  "register parent child ch =
     (let es = children_get ch parent
      in if child \<in> set es then ch else AList.update parent (es @ [child]) ch)"

definition register_parts :: "path \<Rightarrow> child_index \<Rightarrow> child_index" where
  "register_parts parts ch =
     fold (\<lambda>i. register (take i parts) (parts ! i)) [0..<length parts] ch"

fun build_children :: "path \<Rightarrow> path list \<Rightarrow> child_index \<Rightarrow> child_index option" where
  "build_children r [] ch = Some ch"
| "build_children r (p # ps) ch =
     (case relative_to p r of
        None \<Rightarrow> None
      | Some rel \<Rightarrow> build_children r ps (register_parts rel ch))"

definition children :: "env \<Rightarrow> child_index option" where
  "children e = build_children (root e) (files e) []"

text \<open>\<open>(root / Path(*parts)).is_dir()\<close>: a look-up in the directory tree.\<close>

fun lookup :: "node \<Rightarrow> path \<Rightarrow> node option" where
  "lookup n [] = Some n"
| "lookup File (x # xs) = None"
| "lookup (Dir es) (x # xs) =
     (case map_of es x of None \<Rightarrow> None | Some c \<Rightarrow> lookup c xs)"

definition is_dir :: "env \<Rightarrow> path \<Rightarrow> bool" where
  "is_dir e parts = (case lookup (tree e) parts of Some (Dir es) \<Rightarrow> True | _ \<Rightarrow> False)"

text \<open>
  \<^verbatim>\<open>
  def sort_children(parent):
      entries = children.get(parent, [])
      entries.sort(key=lambda x: (not (root / Path(*parent) / x).is_dir(), x.lower()))
      return entries
  \<close>
  \<open>list.sort\<close> is stable, as \<open>sort_key\<close> is. The sort is in place: it reorders the
  list stored at \<open>parent\<close> and nothing else, and each parent is sorted once.
\<close>

definition sort_children :: "env \<Rightarrow> child_index \<Rightarrow> path \<Rightarrow> str list" where
  "sort_children e ch parent =
     sort_key (\<lambda>x. (\<not> is_dir e (parent @ [x]), lower e x)) (children_get ch parent)"

text \<open>
  The connector and guide literals, code point by code point as the source file has
  them (its box-drawing characters are stored mis-decoded).
\<close>

definition connector_last :: str where
  "connector_last = [0xE2, 0x201D, 0x201D, 0xE2, 0x201D, 0x20AC, 0xE2, 0x201D, 0x20AC, 0x20]"

definition connector_mid :: str where
  "connector_mid = [0xE2, 0x201D, 0x153, 0xE2, 0x201D, 0x20AC, 0xE2, 0x201D, 0x20AC, 0x20]"

definition extension_last :: str where
  "extension_last = ustr ''    ''"

definition extension_mid :: str where
  "extension_mid = [0xE2, 0x201D, 0x201A, 0x20, 0x20, 0x20]"

text \<open>The longest key of the index: recursion of \<open>add_tree\<close> stops below it.\<close>

definition depth :: "child_index \<Rightarrow> nat" where
  "depth ch = fold max (map (\<lambda>kv. length (fst kv)) ch) 0"

lemma fold_max_ge: "(a::nat) \<le> fold max xs a"
  by (induction xs arbitrary: a) (auto intro: order_trans [OF max.cobounded2])

lemma fold_max_mem: "(x::nat) \<in> set xs \<Longrightarrow> x \<le> fold max xs a"
proof (induction xs arbitrary: a)
  case Nil
  then show ?case by simp
next
  case (Cons y ys)
  show ?case
  proof (cases "x = y")
    case True
    have "y \<le> max y a" by simp
    also have "\<dots> \<le> fold max ys (max y a)" by (rule fold_max_ge)
    finally show ?thesis using True by simp
  next
    case False
    with Cons.prems have "x \<in> set ys" by simp
    then show ?thesis using Cons.IH by simp
  qed
qed

lemma children_get_depth:
  assumes "name \<in> set (children_get ch parent)"
  shows "length parent \<le> depth ch"
proof -
  from assms obtain es where "map_of ch parent = Some es"
    by (cases "map_of ch parent") (auto simp: children_get_def)
  then have "(parent, es) \<in> set ch" by (rule map_of_SomeD)
  then have "length parent \<in> set (map (\<lambda>kv. length (fst kv)) ch)" by force
  then show ?thesis unfolding depth_def by (rule fold_max_mem)
qed

text \<open>
  \<^verbatim>\<open>
  def add_tree(parent, prefix=''):
      entries = sort_children(parent)
      for i, name in enumerate(entries):
          is_last = i == len(entries) - 1
          connector = '<last> ' if is_last else '<mid> '
          lines.append(prefix + connector + name)
          child_parts = parent + (name,)
          if (root / Path(*child_parts)).is_dir():
              extension = '    ' if is_last else '<guide>   '
              add_tree(child_parts, prefix + extension)
  \<close>
  The function returns the lines it appends.
\<close>

function add_tree :: "env \<Rightarrow> child_index \<Rightarrow> path \<Rightarrow> str \<Rightarrow> str list" where
  "add_tree e ch parent prefix =
     (let entries = sort_children e ch parent in
      concat (map (\<lambda>(i, name).
          let is_last = (i = length entries - 1);
              connector = (if is_last then connector_last else connector_mid);
              child_parts = parent @ [name]
          in (prefix @ connector @ name) #
             (if is_dir e child_parts
              then add_tree e ch child_parts
                     (prefix @ (if is_last then extension_last else extension_mid))
              else []))
        (enumerate 0 entries)))"
  by pat_completeness auto
termination
proof (relation "measure (\<lambda>(e, ch, parent, prefix). Suc (depth ch) - length parent)")
  show "wf (measure (\<lambda>(e, ch, parent, prefix). Suc (depth ch) - length parent))"
    by simp
next
  fix e :: env and ch :: child_index and parent :: path and prefix :: str
    and entries :: "str list" and z :: "nat \<times> str" and i :: nat and name :: str
    and is_last :: bool and connector :: str and child_parts :: path
  assume "entries = sort_children e ch parent" "z \<in> set (enumerate 0 entries)"
    "(i, name) = z" "child_parts = parent @ [name]"
  then have "name \<in> set entries"
    by (auto simp: in_set_enumerate_eq)
  with \<open>entries = sort_children e ch parent\<close> have "name \<in> set (children_get ch parent)"
    by (simp add: sort_children_def)
  then have "length parent \<le> depth ch" by (rule children_get_depth)
  then show "((e, ch, child_parts,
      prefix @ (if is_last then extension_last else extension_mid)),
      e, ch, parent, prefix)
    \<in> measure (\<lambda>(e, ch, parent, prefix). Suc (depth ch) - length parent)"
    using \<open>child_parts = parent @ [name]\<close> by simp
qed

declare add_tree.simps [simp del]

text \<open>
  The same traversal, recording for each appended line the entry it stands for
  (\<open>child_parts\<close>): the lines themselves carry only the entry's name.
\<close>

function tree_paths :: "env \<Rightarrow> child_index \<Rightarrow> path \<Rightarrow> path list" where
  "tree_paths e ch parent =
     concat (map (\<lambda>name.
         (parent @ [name]) #
         (if is_dir e (parent @ [name]) then tree_paths e ch (parent @ [name]) else []))
       (sort_children e ch parent))"
  by pat_completeness auto
termination
proof (relation "measure (\<lambda>(e, ch, parent). Suc (depth ch) - length parent)")
  show "wf (measure (\<lambda>(e, ch, parent). Suc (depth ch) - length parent))"
    by simp
next
  fix e :: env and ch :: child_index and parent :: path and name :: str
  assume "name \<in> set (sort_children e ch parent)"
  then have "name \<in> set (children_get ch parent)"
    by (simp add: sort_children_def)
  then have "length parent \<le> depth ch" by (rule children_get_depth)
  then show "((e, ch, parent @ [name]), e, ch, parent)
    \<in> measure (\<lambda>(e, ch, parent). Suc (depth ch) - length parent)"
    by simp
qed

declare tree_paths.simps [simp del]

text \<open>\<open>sep.join(xs)\<close>, \<open>rel.as_posix()\<close> and \<open>str(root)\<close> of a POSIX path.\<close>

fun join :: "str \<Rightarrow> str list \<Rightarrow> str" where
  "join sep [] = []"
| "join sep [x] = x"
| "join sep (x # y # ys) = x @ sep @ join sep (y # ys)"

definition as_posix :: "path \<Rightarrow> str" where
  "as_posix parts = (if parts = [] then ustr ''.'' else join (ustr ''/'') parts)"

definition path_str :: "path \<Rightarrow> str" where
  "path_str parts = (case parts of [] \<Rightarrow> ustr ''.'' | a # rest \<Rightarrow> a @ join (ustr ''/'') rest)"

text \<open>
  \<^verbatim>\<open>
  lines = []
  lines.append(str(root))
  ...
  add_tree(())
  \<close>
\<close>

definition tree_lines :: "env \<Rightarrow> child_index \<Rightarrow> str list" where
  "tree_lines e ch = path_str (root e) # add_tree e ch [] []"

section \<open>Reading a file as text\<close>

text \<open>
  \<open>path.read_text(encoding=...)\<close> opens the file in text mode: the bytes are decoded,
  strictly, and every \<open>\r\n\<close> and lone \<open>\r\<close> becomes \<open>\n\<close> (universal newlines).
  UTF-8 is decoded by the table of well-formed byte sequences (no overlong form, no
  surrogate, nothing above U+10FFFF); Latin-1 maps each byte to the code point of the
  same value.
\<close>

definition cont :: "char \<Rightarrow> bool" where
  "cont c = (0x80 \<le> (of_char c :: nat) \<and> (of_char c :: nat) \<le> 0xBF)"

definition cbits :: "char \<Rightarrow> nat" where
  "cbits c = of_char c - 0x80"

fun utf8_decode :: "string \<Rightarrow> str option" where
  "utf8_decode [] = Some []"
| "utf8_decode (b # bs) =
    (let n = (of_char b :: nat) in
     if n < 0x80 then map_option ((#) n) (utf8_decode bs)
     else if 0xC2 \<le> n \<and> n \<le> 0xDF then
       (case bs of
          c1 # r \<Rightarrow>
            if cont c1
            then map_option ((#) ((n - 0xC0) * 64 + cbits c1)) (utf8_decode r)
            else None
        | _ \<Rightarrow> None)
     else if 0xE0 \<le> n \<and> n \<le> 0xEF then
       (case bs of
          c1 # c2 # r \<Rightarrow>
            if cont c1 \<and> cont c2
               \<and> (if n = 0xE0 then 0xA0 \<le> (of_char c1 :: nat) else True)
               \<and> (if n = 0xED then (of_char c1 :: nat) \<le> 0x9F else True)
            then map_option ((#) ((n - 0xE0) * 4096 + cbits c1 * 64 + cbits c2))
                   (utf8_decode r)
            else None
        | _ \<Rightarrow> None)
     else if 0xF0 \<le> n \<and> n \<le> 0xF4 then
       (case bs of
          c1 # c2 # c3 # r \<Rightarrow>
            if cont c1 \<and> cont c2 \<and> cont c3
               \<and> (if n = 0xF0 then 0x90 \<le> (of_char c1 :: nat) else True)
               \<and> (if n = 0xF4 then (of_char c1 :: nat) \<le> 0x8F else True)
            then map_option
                   ((#) ((n - 0xF0) * 262144 + cbits c1 * 4096 + cbits c2 * 64 + cbits c3))
                   (utf8_decode r)
            else None
        | _ \<Rightarrow> None)
     else None)"

definition latin1_decode :: "string \<Rightarrow> str" where
  "latin1_decode bs = map of_char bs"

fun universal_newlines :: "str \<Rightarrow> str" where
  "universal_newlines [] = []"
| "universal_newlines [c] = [if c = CR then NL else c]"
| "universal_newlines (c # d # r) =
     (if c = CR \<and> d = NL then NL # universal_newlines r
      else if c = CR then NL # universal_newlines (d # r)
      else c # universal_newlines (d # r))"

datatype encoding = UTF8 | Latin1

definition decode :: "encoding \<Rightarrow> string \<Rightarrow> str option" where
  "decode enc bs = (case enc of UTF8 \<Rightarrow> utf8_decode bs | Latin1 \<Rightarrow> Some (latin1_decode bs))"

text \<open>
  The exceptions of a read: \<open>UnicodeDecodeError\<close>, or any other \<open>Exception\<close>, kept
  with its \<open>str(e)\<close>.
\<close>

datatype exn = UnicodeDecodeError | OtherError str

definition read_text :: "io_result \<Rightarrow> encoding \<Rightarrow> exn + str" where
  "read_text io enc =
     (case io of
        OSError m \<Rightarrow> Inl (OtherError m)
      | Bytes bs \<Rightarrow>
          (case decode enc bs of
             None \<Rightarrow> Inl UnicodeDecodeError
           | Some t \<Rightarrow> Inr (universal_newlines t)))"

text \<open>
  \<^verbatim>\<open>
  def read_text_safely(path: Path):
      try:
          data = path.read_text(encoding='utf-8')
          return data
      except UnicodeDecodeError:
          return path.read_text(encoding='latin-1')
  \<close>
  \<open>reads k\<close> is what the \<open>k\<close>-th opening of the path gives.
\<close>

definition read_text_safely :: "(nat \<Rightarrow> io_result) \<Rightarrow> exn + str" where
  "read_text_safely reads =
     (case read_text (reads 0) UTF8 of
        Inr data \<Rightarrow> Inr data
      | Inl UnicodeDecodeError \<Rightarrow> read_text (reads 1) Latin1
      | Inl (OtherError m) \<Rightarrow> Inl (OtherError m))"

section \<open>Content dumper\<close>

text \<open>
  Text reaches the output file through a strict UTF-8 encoder: \<open>f.write(s)\<close> raises
  \<open>UnicodeEncodeError\<close>, and writes nothing of \<open>s\<close>, when \<open>s\<close> holds a surrogate code
  point, as the name of a file does whose bytes are not UTF-8 (\<open>os.walk\<close> reports it
  with surrogate escapes). No write of the run stands in a \<open>try\<close>: the exception ends
  the run.
\<close>

definition surrogate :: "nat \<Rightarrow> bool" where
  "surrogate c = (0xD800 \<le> c \<and> c \<le> 0xDFFF)"

definition encodable :: "str \<Rightarrow> bool" where
  "encodable s = list_all (\<lambda>c. \<not> surrogate c) s"

definition encode_char :: "nat \<Rightarrow> string" where
  "encode_char c =
     (if c < 0x80 then [char_of c]
      else if c < 0x800 then [char_of (0xC0 + c div 64), char_of (0x80 + c mod 64)]
      else if c < 0x10000 then
        [char_of (0xE0 + c div 4096), char_of (0x80 + c div 64 mod 64), char_of (0x80 + c mod 64)]
      else
        [char_of (0xF0 + c div 262144), char_of (0x80 + c div 4096 mod 64),
         char_of (0x80 + c div 64 mod 64), char_of (0x80 + c mod 64)])"

definition utf8_encode :: "str \<Rightarrow> string" where
  "utf8_encode s = concat (map encode_char s)"

datatype abort = ValueError | UnicodeEncodeError

text \<open>
  The output file is opened for writing, which empties it, before any file is read.
  A read of the output path inside the loop therefore returns no byte the file held
  before the run: it returns the bytes that have reached the file, a prefix of the
  encoding of the text \<open>w\<close> this run has written. Every other path is as \<open>rd\<close> has it.
\<close>

definition read_at :: "env \<Rightarrow> str \<Rightarrow> path \<Rightarrow> nat \<Rightarrow> io_result" where
  "read_at e w p k =
     (if p = output_path e then Bytes (take (flushed e w) (utf8_encode w)) else rd e p k)"

text \<open>
  \<open>str(e)\<close> of the exception caught by \<open>except Exception as e\<close>. A
  \<open>UnicodeDecodeError\<close> never leaves \<open>read_text_safely\<close> (lemma
  \<open>read_text_safely_no_decode_error\<close>), so its text plays no part.
\<close>

definition describe :: "exn \<Rightarrow> str" where
  "describe ex = (case ex of OtherError m \<Rightarrow> m | UnicodeDecodeError \<Rightarrow> ustr ''UnicodeDecodeError'')"

definition placeholder :: "exn \<Rightarrow> str" where
  "placeholder ex = ustr ''[Error reading file: '' @ describe ex @ ustr '']''"

definition endswith_nl :: "str \<Rightarrow> bool" where
  "endswith_nl s = (s \<noteq> [] \<and> last s = NL)"

definition delimiter :: "path \<Rightarrow> str" where
  "delimiter rel = ustr ''--- FILE: '' @ as_posix rel @ ustr '' ---'' @ [NL]"

text \<open>
  One turn of the loop, with \<open>w\<close> the text written before it:
  \<^verbatim>\<open>
  rel = p.relative_to(root)
  f.write(f'--- FILE: {rel.as_posix()} ---\n')
  try:
      content = read_text_safely(p)
  except Exception as e:
      content = f'[Error reading file: {e}]'
  f.write(content)
  if not content.endswith('\n'):
      f.write('\n')
  f.write('\n')
  \<close>
  The turn returns the section it wrote (\<open>Inr\<close>), or the exception that ended it with
  what it had written before (\<open>Inl\<close>): nothing when the delimiter line cannot be
  encoded, the delimiter line when the content cannot.
\<close>

definition file_content :: "env \<Rightarrow> str \<Rightarrow> path \<Rightarrow> str" where
  "file_content e w p =
     (case read_text_safely (read_at e w p) of
        Inr content \<Rightarrow> content
      | Inl ex \<Rightarrow> placeholder ex)"

definition file_section :: "env \<Rightarrow> str \<Rightarrow> path \<Rightarrow> (abort \<times> str) + str" where
  "file_section e w p =
     (case relative_to p (root e) of
        None \<Rightarrow> Inl (ValueError, [])
      | Some rel \<Rightarrow>
          if \<not> encodable (delimiter rel) then Inl (UnicodeEncodeError, [])
          else
            (let content = file_content e (w @ delimiter rel) p
             in if \<not> encodable content then Inl (UnicodeEncodeError, delimiter rel)
                else Inr (delimiter rel @ content
                          @ (if endswith_nl content then [] else [NL]) @ [NL])))"

text \<open>
  \<open>for p in sorted(files): ...\<close>, returning the sections of the turns that ended, and
  for a turn that an exception ended, the exception and what that turn had written.
\<close>

fun write_loop :: "env \<Rightarrow> str \<Rightarrow> path list \<Rightarrow> str list \<times> (abort \<times> str) option" where
  "write_loop e w [] = ([], None)"
| "write_loop e w (p # ps) =
     (case file_section e w p of
        Inl x \<Rightarrow> ([], Some x)
      | Inr s \<Rightarrow>
          (case write_loop e (w @ s) ps of (ss, r) \<Rightarrow> (s # ss, r)))"

text \<open>
  \<^verbatim>\<open>
  f.write('REPO TREE\n')
  f.write('========\n')
  f.write('\n'.join(lines))
  f.write('\n\n')
  f.write('FILE CONTENTS (latest)\n')
  f.write('======================\n\n')
  \<close>
  Of these writes only that of the joined lines can raise.
\<close>

definition tree_header :: str where
  "tree_header = ustr ''REPO TREE'' @ [NL] @ ustr ''========'' @ [NL]"

definition preamble :: "str list \<Rightarrow> str" where
  "preamble lines =
     ustr ''REPO TREE'' @ [NL] @ ustr ''========'' @ [NL]
     @ join [NL] lines @ [NL, NL]
     @ ustr ''FILE CONTENTS (latest)'' @ [NL]
     @ ustr ''======================'' @ [NL, NL]"

text \<open>
  The whole run. \<open>sections\<close>: the file sections written, and the exception that ended
  the run, if one did, with what the turn it ended had written. \<open>export\<close>: the text
  left in the output file, and the exception. (A \<open>ValueError\<close> would come before the
  file is opened; lemma \<open>children_total\<close> shows that none comes.)
\<close>

definition sections :: "env \<Rightarrow> str list \<times> (abort \<times> str) option" where
  "sections e =
     (case children e of
        None \<Rightarrow> ([], Some (ValueError, []))
      | Some ch \<Rightarrow>
          if \<not> encodable (join [NL] (tree_lines e ch)) then ([], Some (UnicodeEncodeError, []))
          else write_loop e (preamble (tree_lines e ch)) (sort (files e)))"

definition export :: "env \<Rightarrow> str \<times> abort option" where
  "export e =
     (case children e of
        None \<Rightarrow> ([], Some ValueError)
      | Some ch \<Rightarrow>
          if \<not> encodable (join [NL] (tree_lines e ch))
          then (tree_header, Some UnicodeEncodeError)
          else
            (case write_loop e (preamble (tree_lines e ch)) (sort (files e)) of
               (ss, None) \<Rightarrow> (preamble (tree_lines e ch) @ concat ss, None)
             | (ss, Some (err, part)) \<Rightarrow>
                 (preamble (tree_lines e ch) @ concat ss @ part, Some err)))"

section \<open>Vocabulary of the properties\<close>

text \<open>
  \<open>file_at n rel\<close>: below the directory \<open>n\<close>, the relative path \<open>rel\<close> leads through
  directories to an entry that is not a directory. \<open>wf_node\<close>: the names of a
  directory are distinct and hold no \<open>/\<close>, as in any real directory. \<open>clean p\<close>: no
  segment of \<open>p\<close> is an excluded name.
\<close>

fun file_at :: "node \<Rightarrow> path \<Rightarrow> bool" where
  "file_at (Dir es) [x] = ((x, File) \<in> set es)"
| "file_at (Dir es) (x # y # r) = (\<exists>(d, n) \<in> set es. d = x \<and> n \<noteq> File \<and> file_at n (y # r))"
| "file_at n rel = False"



definition clean :: "path \<Rightarrow> bool" where
  "clean p = (\<forall>part \<in> set p. part \<notin> exclude_dirs)"


text \<open>
  \<open>writable e\<close>: nothing the run may be asked to write holds a surrogate: no segment
  of the root, no segment of a collected path, no message of a failed read of a
  collected file. Then no write raises (lemma \<open>writable_completes\<close>).
\<close>

definition writable :: "env \<Rightarrow> bool" where
  "writable e =
     (list_all encodable (root e)
      \<and> (\<forall>p \<in> set (files e). list_all encodable p
            \<and> (\<forall>w k m. read_at e w p k = OSError m \<longrightarrow> encodable m)))"

section \<open>Worked directories\<close>

text \<open>
  The scenario of the specification: under the root \<open>/r\<close>, the files \<open>a.txt\<close>
  (\<open>hi\<close>, no line break at its end), \<open>node_modules/x.js\<close> and \<open>sub/b.txt\<close> (one line).
\<close>

definition ascii_lower :: "str \<Rightarrow> str" where
  "ascii_lower s = map (\<lambda>c. if 65 \<le> c \<and> c \<le> 90 then c + 32 else c) s"

definition demo_tree :: node where
  "demo_tree = Dir [(ustr ''a.txt'', File),
                    (ustr ''node_modules'', Dir [(ustr ''x.js'', File)]),
                    (ustr ''sub'', Dir [(ustr ''b.txt'', File)])]"

definition demo_rd :: "path \<Rightarrow> nat \<Rightarrow> io_result" where
  "demo_rd p k =
     (if p = [ustr ''/'', ustr ''r'', ustr ''a.txt''] then Bytes ''hi''
      else if p = [ustr ''/'', ustr ''r'', ustr ''sub'', ustr ''b.txt''] then Bytes (''line1'' @ [CHR 0x0A])
      else Bytes ''ignored'')"

definition demo :: env where
  "demo = \<lparr>root = [ustr ''/'', ustr ''r''], tree = demo_tree, rd = demo_rd,
            flushed = (\<lambda>w. 0), lower = ascii_lower\<rparr>"






text \<open>Two listings of one directory, \<open>b\<close> before \<open>a\<close> and \<open>a\<close> before \<open>b\<close>.\<close>

definition listed_ba :: env where
  "listed_ba = demo\<lparr>tree := Dir [(ustr ''b'', File), (ustr ''a'', File)]\<rparr>"

definition listed_ab :: env where
  "listed_ab = demo\<lparr>tree := Dir [(ustr ''a'', File), (ustr ''b'', File)]\<rparr>"

text \<open>
  The child index of the scenario.
\<close>

definition demo_index :: child_index where
  "demo_index = [([], [ustr ''a.txt'', ustr ''sub'']), ([ustr ''sub''], [ustr ''b.txt''])]"


text \<open>
  The scenario again, the root now being \<open>/dist\<close>.
\<close>

definition under_dist :: env where
  "under_dist = demo\<lparr>root := [ustr ''/'', ustr ''dist'']\<rparr>"

text \<open>
  A directory with two names that differ only in case, \<open>A\<close> and \<open>a\<close>, of 9000 bytes
  each, and the output file of an earlier run, listed \<open>A\<close> first and listed \<open>a\<close> first.
  The bytes written reach the output file in blocks of 8192. \<open>tie_lines\<close> are the
  lines of the tree, with the two names in the order given, and \<open>tie_head\<close> is the
  document up to the delimiter line of \<open>A\<close>.
\<close>

definition blocks :: "str \<Rightarrow> nat" where
  "blocks w = 8192 * (length (utf8_encode w) div 8192)"

definition tie_Aa :: env where
  "tie_Aa = \<lparr>root = [ustr ''/'', ustr ''r''],
             tree = Dir [(ustr ''A'', File), (ustr ''a'', File), (output_name, File)],
             rd = (\<lambda>p k. Bytes (replicate 9000 CHR ''x'')), flushed = blocks,
             lower = ascii_lower\<rparr>"

definition tie_aA :: env where
  "tie_aA = tie_Aa\<lparr>tree := Dir [(ustr ''a'', File), (ustr ''A'', File), (output_name, File)]\<rparr>"

definition tie_lines :: "str \<Rightarrow> str \<Rightarrow> str list" where
  "tie_lines x y = [ustr ''/r'', connector_mid @ output_name, connector_mid @ x, connector_last @ y]"

definition tie_head :: "str \<Rightarrow> str \<Rightarrow> str" where
  "tie_head x y = preamble (tie_lines x y) @ delimiter [ustr ''A'']"

section \<open>Properties of the collector\<close>

lemma walk_iff:
  "p \<in> set (walk dp n) \<longleftrightarrow> (\<exists>rel. p = dp @ rel \<and> file_at n rel \<and> clean (dp @ rel))"
proof (induction dp n arbitrary: p rule: walk.induct)
  case (1 dirpath)
  then show ?case by simp
next
  case (2 dirpath es)
  show ?case
  proof
    assume "p \<in> set (walk dirpath (Dir es))"
    then consider (here) name where "(name, File) \<in> set es" "p = dirpath @ [name]" "clean p"
      | (below) d n where "(d, n) \<in> set (dirnames es)" "d \<notin> exclude_dirs" "p \<in> set (walk (dirpath @ [d]) n)"
      by (auto simp: filenames_def clean_def)
    then show "\<exists>rel. p = dirpath @ rel \<and> file_at (Dir es) rel \<and> clean (dirpath @ rel)"
    proof cases
      case here
      then show ?thesis by (intro exI [of _ "[name]"]) simp
    next
      case below
      then have mem: "(d, n) \<in> set (filter (\<lambda>(d, n). d \<notin> exclude_dirs) (dirnames es))"
        by simp
      from below(3) obtain rel where r: "p = (dirpath @ [d]) @ rel" "file_at n rel" "clean ((dirpath @ [d]) @ rel)"
        unfolding 2 [OF mem refl] by blast
      from r(2) obtain y r' where "rel = y # r'" by (cases rel; cases n) auto
      with r below(1) show ?thesis
        by (intro exI [of _ "d # rel"]) (auto simp: dirnames_def)
    qed
  next
    assume "\<exists>rel. p = dirpath @ rel \<and> file_at (Dir es) rel \<and> clean (dirpath @ rel)"
    then obtain rel where r: "p = dirpath @ rel" "file_at (Dir es) rel" "clean (dirpath @ rel)"
      by blast
    show "p \<in> set (walk dirpath (Dir es))"
    proof (cases rel)
      case Nil
      with r show ?thesis by simp
    next
      case (Cons x xs)
      show ?thesis
      proof (cases xs)
        case Nil
        with Cons r show ?thesis by (force simp: filenames_def clean_def)
      next
        case (Cons y ys)
        with \<open>rel = x # xs\<close> r(2) obtain n where n: "(x, n) \<in> set es" "n \<noteq> File" "file_at n (y # ys)"
          by auto
        from r(3) \<open>rel = x # xs\<close> have x: "x \<notin> exclude_dirs" by (simp add: clean_def)
        from n x have mem: "(x, n) \<in> set (filter (\<lambda>(d, n). d \<notin> exclude_dirs) (dirnames es))"
          by (simp add: dirnames_def)
        have "p = (dirpath @ [x]) @ (y # ys)" using r(1) Cons \<open>rel = x # xs\<close> by simp
        moreover have "clean ((dirpath @ [x]) @ (y # ys))" using r(3) Cons \<open>rel = x # xs\<close> by simp
        ultimately have "p \<in> set (walk (dirpath @ [x]) n)"
          using 2 [OF mem refl] n(3) x by blast
        with mem show ?thesis by force
      qed
    qed
  qed
qed

lemma files_iff:
  "p \<in> set (files e) \<longleftrightarrow>
     (\<exists>rel. p = root e @ rel \<and> file_at (tree e) rel \<and> clean (root e @ rel))"
  by (simp add: files_def walk_iff)

lemma file_at_nonempty: "file_at n rel \<Longrightarrow> rel \<noteq> []"
  by (cases n; cases rel) auto

lemma files_under_root: "p \<in> set (files e) \<Longrightarrow> take (length (root e)) p = root e"
  by (auto simp: files_iff)




section \<open>Properties of the child index\<close>

lemma relative_to_append [simp]: "relative_to (r @ rel) r = Some rel"
  by (simp add: relative_to_def)

lemma relative_to_Some: "relative_to p r = Some rel \<longleftrightarrow> p = r @ rel"
  by (auto simp: relative_to_def) (metis append_take_drop_id)

lemma children_get_register:
  "children_get (register parent child ch) q =
     (if q = parent \<and> child \<notin> set (children_get ch parent)
      then children_get ch parent @ [child] else children_get ch q)"
  by (simp add: register_def children_get_def Let_def update_conv')

lemma set_children_get_register:
  "set (children_get (register parent child ch) q) =
     (if q = parent then insert child (set (children_get ch q)) else set (children_get ch q))"
  by (auto simp: children_get_register)

lemma distinct_children_get_register:
  "distinct (children_get ch q) \<Longrightarrow> distinct (children_get (register parent child ch) q)"
  by (auto simp: children_get_register)

lemma fold_register_upt:
  "n \<le> length parts \<Longrightarrow>
   set (children_get (fold (\<lambda>i. register (take i parts) (parts ! i)) [0..<n] ch) q) =
     set (children_get ch q) \<union> {parts ! i |i. i < n \<and> take i parts = q}"
proof (induction n)
  case 0
  then show ?case by simp
next
  case (Suc n)
  then have "set (children_get (fold (\<lambda>i. register (take i parts) (parts ! i)) [0..<n] ch) q) =
     set (children_get ch q) \<union> {parts ! i |i. i < n \<and> take i parts = q}"
    by simp
  then show ?case
    by (auto simp: set_children_get_register less_Suc_eq)
qed

lemma set_children_get_register_parts:
  "set (children_get (register_parts parts ch) q) =
     set (children_get ch q) \<union> {parts ! i |i. i < length parts \<and> take i parts = q}"
  unfolding register_parts_def by (rule fold_register_upt) simp

lemma distinct_children_get_register_parts:
  "distinct (children_get ch q) \<Longrightarrow> distinct (children_get (register_parts parts ch) q)"
proof -
  have "distinct (children_get ch q) \<Longrightarrow>
    distinct (children_get (fold (\<lambda>i. register (take i parts) (parts ! i)) [0..<n] ch) q)" for n
    by (induction n) (simp_all add: distinct_children_get_register)
  then show "distinct (children_get ch q) \<Longrightarrow> distinct (children_get (register_parts parts ch) q)"
    unfolding register_parts_def by blast
qed

lemma build_children_Some:
  assumes "build_children r ps ch = Some ch'"
  shows "set (children_get ch' q) =
     set (children_get ch q) \<union>
     {rel ! i |rel i. r @ rel \<in> set ps \<and> i < length rel \<and> take i rel = q}"
  using assms
proof (induction ps arbitrary: ch)
  case Nil
  then show ?case by simp
next
  case (Cons p ps)
  from Cons.prems obtain rel where rel: "relative_to p r = Some rel"
    and rest: "build_children r ps (register_parts rel ch) = Some ch'"
    by (auto split: option.splits)
  from rel have p: "p = r @ rel" by (simp add: relative_to_Some)
  show ?case
    unfolding Cons.IH [OF rest] set_children_get_register_parts p
    by auto
qed

lemma build_children_distinct:
  "build_children r ps ch = Some ch' \<Longrightarrow> distinct (children_get ch q) \<Longrightarrow>
   distinct (children_get ch' q)"
proof (induction ps arbitrary: ch)
  case Nil
  then show ?case by simp
next
  case (Cons p ps)
  then show ?case
    by (auto split: option.splits intro: distinct_children_get_register_parts)
qed

lemma build_children_total:
  "(\<And>p. p \<in> set ps \<Longrightarrow> take (length r) p = r) \<Longrightarrow> \<exists>ch'. build_children r ps ch = Some ch'"
proof (induction ps arbitrary: ch)
  case Nil
  then show ?case by simp
next
  case (Cons p ps)
  have "take (length r) p = r" using Cons.prems by simp
  then have "relative_to p r = Some (drop (length r) p)" by (simp add: relative_to_def)
  then show ?case using Cons by simp
qed

lemma children_total: "\<exists>ch. children e = Some ch"
  unfolding children_def by (rule build_children_total) (rule files_under_root)

lemma children_get_empty [simp]: "children_get [] q = []"
  by (simp add: children_get_def)

lemma children_entries:
  assumes "children e = Some ch"
  shows "c \<in> set (children_get ch q) \<longleftrightarrow>
     (\<exists>rel i. root e @ rel \<in> set (files e) \<and> i < length rel \<and> take i rel = q \<and> rel ! i = c)"
  using build_children_Some [OF assms [unfolded children_def], of q] by auto

lemma children_distinct:
  "children e = Some ch \<Longrightarrow> distinct (children_get ch q)"
  unfolding children_def by (erule build_children_distinct) simp

lemma children_clean:
  assumes "children e = Some ch" "c \<in> set (children_get ch q)"
  shows "clean (q @ [c])"
proof -
  from assms obtain rel i where r: "root e @ rel \<in> set (files e)" "i < length rel"
    "take i rel = q" "rel ! i = c"
    by (auto simp: children_entries)
  from r(1) have "clean (root e @ rel)" by (auto simp: files_iff)
  then have "clean rel" by (simp add: clean_def)
  moreover have "set (q @ [c]) \<subseteq> set rel"
    using r(2-4) by (auto dest: in_set_takeD)
  ultimately show ?thesis unfolding clean_def by blast
qed

section \<open>Properties of the tree renderer\<close>

lemma set_sort_children [simp]:
  "set (sort_children e ch parent) = set (children_get ch parent)"
  by (simp add: sort_children_def)


lemma tree_paths_clean:
  "q \<in> set (tree_paths e ch parent) \<Longrightarrow> clean parent \<Longrightarrow>
   (\<And>q c. c \<in> set (children_get ch q) \<Longrightarrow> c \<notin> exclude_dirs) \<Longrightarrow> clean q"
proof (induction e ch parent arbitrary: q rule: tree_paths.induct)
  case (1 e ch parent)
  from 1(2) obtain name where name: "name \<in> set (children_get ch parent)"
    and q: "q = parent @ [name] \<or> (is_dir e (parent @ [name]) \<and> q \<in> set (tree_paths e ch (parent @ [name])))"
    by (subst (asm) tree_paths.simps) (auto split: if_splits)
  from name have "name \<notin> exclude_dirs" by (rule 1(4))
  with 1(3) have c: "clean (parent @ [name])" by (simp add: clean_def)
  from q show ?case
  proof
    assume "q = parent @ [name]"
    with c show ?thesis by simp
  next
    assume "is_dir e (parent @ [name]) \<and> q \<in> set (tree_paths e ch (parent @ [name]))"
    with 1(1) [of name q] name c 1(4) show ?thesis by simp
  qed
qed



text \<open>Each line of \<open>add_tree\<close> ends with the name of the entry it stands for.\<close>

lemma list_all2_concat_enumerate:
  "(\<And>i x. (i, x) \<in> set (enumerate k xs) \<Longrightarrow> list_all2 R (F (i, x)) (G x)) \<Longrightarrow>
   list_all2 R (concat (map F (enumerate k xs))) (concat (map G xs))"
proof (induction xs arbitrary: k)
  case Nil
  then show ?case by simp
next
  case (Cons x xs)
  have "list_all2 R (F (k, x)) (G x)" using Cons.prems by simp
  moreover have "list_all2 R (concat (map F (enumerate (Suc k) xs))) (concat (map G xs))"
    using Cons.prems by (intro Cons.IH) simp
  ultimately show ?case by (simp add: list_all2_appendI)
qed

lemma add_tree_paths:
  "list_all2 (\<lambda>line q. \<exists>pre. line = pre @ last q)
     (add_tree e ch parent prefix) (tree_paths e ch parent)"
proof (induction e ch parent prefix rule: add_tree.induct)
  case (1 e ch parent prefix)
  let ?entries = "sort_children e ch parent"
  let ?R = "\<lambda>line q. \<exists>pre. line = pre @ last q"
  have "list_all2 ?R
      ((\<lambda>(i, name).
          let is_last = (i = length ?entries - 1);
              connector = (if is_last then connector_last else connector_mid);
              child_parts = parent @ [name]
          in (prefix @ connector @ name) #
             (if is_dir e child_parts
              then add_tree e ch child_parts
                     (prefix @ (if is_last then extension_last else extension_mid))
              else [])) (i, name))
      ((\<lambda>name. (parent @ [name]) #
         (if is_dir e (parent @ [name]) then tree_paths e ch (parent @ [name]) else [])) name)"
    if "(i, name) \<in> set (enumerate 0 ?entries)" for i name
  proof -
    have "?R (prefix @ c @ name) (parent @ [name])" for c
      by (intro exI [of _ "prefix @ c"]) simp
    moreover have "list_all2 ?R
        (add_tree e ch (parent @ [name])
           (prefix @ (if i = length ?entries - 1 then extension_last else extension_mid)))
        (tree_paths e ch (parent @ [name]))"
      if "is_dir e (parent @ [name])"
      using 1 [OF refl \<open>(i, name) \<in> set (enumerate 0 ?entries)\<close> refl refl refl refl that] .
    ultimately show ?thesis by (simp add: Let_def)
  qed
  then have "list_all2 ?R
     (concat (map (\<lambda>(i, name).
          let is_last = (i = length ?entries - 1);
              connector = (if is_last then connector_last else connector_mid);
              child_parts = parent @ [name]
          in (prefix @ connector @ name) #
             (if is_dir e child_parts
              then add_tree e ch child_parts
                     (prefix @ (if is_last then extension_last else extension_mid))
              else [])) (enumerate 0 ?entries)))
     (concat (map (\<lambda>name. (parent @ [name]) #
         (if is_dir e (parent @ [name]) then tree_paths e ch (parent @ [name]) else []))
       ?entries))"
    by (rule list_all2_concat_enumerate)
  then show ?case
    by (subst add_tree.simps, subst tree_paths.simps) (simp add: Let_def)
qed

section \<open>Properties of reading and of the dump loop\<close>


lemma read_text_safely_no_decode_error:
  "read_text_safely reads \<noteq> Inl UnicodeDecodeError"
  by (auto simp: read_text_safely_def read_text_def decode_def
      split: io_result.splits option.splits sum.splits exn.splits)

lemma encodable_Nil [simp]: "encodable []"
  by (simp add: encodable_def)

lemma encodable_Cons [simp]: "encodable (c # s) = (\<not> surrogate c \<and> encodable s)"
  by (simp add: encodable_def)

lemma encodable_append [simp]: "encodable (a @ b) = (encodable a \<and> encodable b)"
  by (simp add: encodable_def)

lemma encodable_iff: "encodable s = (\<forall>c \<in> set s. \<not> surrogate c)"
  by (simp add: encodable_def list_all_iff)

lemma of_char_less_256: "(of_char c :: nat) < 256"
proof -
  have "of_char c = (of_char c :: nat) mod 256" by (simp add: of_char_mod_256)
  also have "\<dots> < 256" by simp
  finally show ?thesis .
qed

lemma encodable_ustr [simp]: "encodable (ustr s)"
proof -
  have "\<not> surrogate (of_char c)" for c
    using of_char_less_256 [of c] unfolding surrogate_def by linarith
  then show ?thesis by (simp add: encodable_iff ustr_def)
qed

lemma not_surrogate_NL [simp]: "\<not> surrogate NL"
  by (simp add: surrogate_def NL_def)

lemma encodable_latin1: "encodable (latin1_decode bs)"
proof -
  have "\<not> surrogate (of_char c)" for c
    using of_char_less_256 [of c] unfolding surrogate_def by linarith
  then show ?thesis by (simp add: encodable_iff latin1_decode_def)
qed

lemma encodable_universal_newlines: "encodable t \<Longrightarrow> encodable (universal_newlines t)"
  by (induction t rule: universal_newlines.induct) auto

lemma cbits_le: "cont c \<Longrightarrow> cbits c \<le> 63"
  unfolding cont_def cbits_def by linarith


lemma utf8_decode_encodable: "utf8_decode bs = Some t \<Longrightarrow> encodable t"
proof (induction bs arbitrary: t rule: utf8_decode.induct)
  case 1
  then show ?case by simp
next
  case (2 b bs)
  let ?n = "of_char b :: nat"
  consider (one) "?n < 0x80"
    | (two) "\<not> ?n < 0x80" "0xC2 \<le> ?n \<and> ?n \<le> 0xDF"
    | (three) "\<not> ?n < 0x80" "\<not> (0xC2 \<le> ?n \<and> ?n \<le> 0xDF)" "0xE0 \<le> ?n \<and> ?n \<le> 0xEF"
    | (four) "\<not> ?n < 0x80" "\<not> (0xC2 \<le> ?n \<and> ?n \<le> 0xDF)" "\<not> (0xE0 \<le> ?n \<and> ?n \<le> 0xEF)"
        "0xF0 \<le> ?n \<and> ?n \<le> 0xF4"
    | (none) "\<not> ?n < 0x80" "\<not> (0xC2 \<le> ?n \<and> ?n \<le> 0xDF)" "\<not> (0xE0 \<le> ?n \<and> ?n \<le> 0xEF)"
        "\<not> (0xF0 \<le> ?n \<and> ?n \<le> 0xF4)"
    by blast
  then show ?case
  proof cases
    case one
    with "2.prems" obtain t' where t': "utf8_decode bs = Some t'" "t = ?n # t'"
      by (auto simp: Let_def)
    from "2.IH"(1) [OF refl one t'(1)] have "encodable t'" .
    moreover from one have "\<not> surrogate ?n" unfolding surrogate_def by linarith
    ultimately show ?thesis using t'(2) by simp
  next
    case two
    with "2.prems" obtain c1 r t' where bs: "bs = c1 # r" and c: "cont c1"
      and t': "utf8_decode r = Some t'" "t = ((?n - 0xC0) * 64 + cbits c1) # t'"
      by (auto simp: Let_def split: list.splits if_splits)
    from "2.IH"(2) [OF refl two bs c t'(1)] have "encodable t'" .
    moreover from two cbits_le [OF c] have "\<not> surrogate ((?n - 0xC0) * 64 + cbits c1)"
      unfolding surrogate_def by linarith
    ultimately show ?thesis using t'(2) by simp
  next
    case three
    with "2.prems" obtain c1 c2 r t' where bs: "bs = c1 # c2 # r"
      and c: "cont c1 \<and> cont c2
               \<and> (if ?n = 0xE0 then 0xA0 \<le> (of_char c1 :: nat) else True)
               \<and> (if ?n = 0xED then (of_char c1 :: nat) \<le> 0x9F else True)"
      and t': "utf8_decode r = Some t'"
        "t = ((?n - 0xE0) * 4096 + cbits c1 * 64 + cbits c2) # t'"
      by (auto simp: Let_def split: list.splits if_splits)
    from bs obtain l where l: "bs = c1 # l" "l = c2 # r" by simp
    from "2.IH"(3) [OF refl three l c t'(1)] have "encodable t'" .
    moreover have "\<not> surrogate ((?n - 0xE0) * 4096 + cbits c1 * 64 + cbits c2)"
    proof -
      from c have b1: "cbits c1 \<le> 63" and b2: "cbits c2 \<le> 63" by (simp_all add: cbits_le)
      show ?thesis
      proof (cases "?n = 0xED")
        case True
        with c have "(of_char c1 :: nat) \<le> 0x9F" by simp
        then have "cbits c1 \<le> 31" unfolding cbits_def by linarith
        with True b2 show ?thesis unfolding surrogate_def by simp
      next
        case False
        with three b1 b2 show ?thesis unfolding surrogate_def by linarith
      qed
    qed
    ultimately show ?thesis using t'(2) by simp
  next
    case four
    with "2.prems" obtain c1 c2 c3 r t' where bs: "bs = c1 # c2 # c3 # r"
      and c: "cont c1 \<and> cont c2 \<and> cont c3
               \<and> (if ?n = 0xF0 then 0x90 \<le> (of_char c1 :: nat) else True)
               \<and> (if ?n = 0xF4 then (of_char c1 :: nat) \<le> 0x8F else True)"
      and t': "utf8_decode r = Some t'"
        "t = ((?n - 0xF0) * 262144 + cbits c1 * 4096 + cbits c2 * 64 + cbits c3) # t'"
      by (auto simp: Let_def split: list.splits if_splits)
    from bs obtain l l' where l: "bs = c1 # l" "l = c2 # l'" "l' = c3 # r" by simp
    from "2.IH"(4) [OF refl four l c t'(1)] have "encodable t'" .
    moreover have "\<not> surrogate ((?n - 0xF0) * 262144 + cbits c1 * 4096 + cbits c2 * 64 + cbits c3)"
    proof (cases "?n = 0xF0")
      case True
      with c have "0x90 \<le> (of_char c1 :: nat)" by simp
      then have "16 \<le> cbits c1" unfolding cbits_def by linarith
      then show ?thesis unfolding surrogate_def by linarith
    next
      case False
      with four have "1 \<le> ?n - 0xF0" by linarith
      then have "262144 \<le> (?n - 0xF0) * 262144" by simp
      then show ?thesis unfolding surrogate_def by linarith
    qed
    ultimately show ?thesis using t'(2) by simp
  next
    case none
    with "2.prems" show ?thesis by (simp add: Let_def)
  qed
qed

lemma read_text_encodable: "read_text io enc = Inr t \<Longrightarrow> encodable t"
  by (auto simp: read_text_def decode_def encodable_latin1
      split: io_result.splits option.splits encoding.splits
      intro: encodable_universal_newlines utf8_decode_encodable)

lemma read_text_safely_encodable: "read_text_safely reads = Inr t \<Longrightarrow> encodable t"
  by (auto simp: read_text_safely_def split: sum.splits exn.splits dest: read_text_encodable)

lemma file_section_under_root:
  "file_section e w (root e @ rel) =
     (if \<not> encodable (delimiter rel) then Inl (UnicodeEncodeError, [])
      else if \<not> encodable (file_content e (w @ delimiter rel) (root e @ rel))
      then Inl (UnicodeEncodeError, delimiter rel)
      else Inr (delimiter rel @ file_content e (w @ delimiter rel) (root e @ rel)
           @ (if endswith_nl (file_content e (w @ delimiter rel) (root e @ rel)) then [] else [NL])
           @ [NL]))"
  by (simp add: file_section_def Let_def)

lemma file_section_Inr:
  assumes "file_section e w p = Inr s"
  shows "\<exists>rel. p = root e @ rel \<and> encodable (delimiter rel)
     \<and> encodable (file_content e (w @ delimiter rel) p)
     \<and> s = delimiter rel @ file_content e (w @ delimiter rel) p
           @ (if endswith_nl (file_content e (w @ delimiter rel) p) then [] else [NL]) @ [NL]"
proof (cases "relative_to p (root e)")
  case None
  with assms show ?thesis by (simp add: file_section_def)
next
  case (Some rel)
  then have "p = root e @ rel" by (simp add: relative_to_Some)
  with assms show ?thesis
    by (intro exI [of _ rel]) (auto simp: file_section_under_root split: if_splits)
qed

lemma file_section_Inl:
  assumes "file_section e w (root e @ rel) = Inl (err, part)"
  shows "err = UnicodeEncodeError \<and> (part = [] \<or> part = delimiter rel)"
  using assms by (auto simp: file_section_under_root split: if_splits)

lemma write_loop_length:
  "write_loop e w ps = (ss, r) \<Longrightarrow>
   length ss \<le> length ps \<and> (r = None \<longrightarrow> length ss = length ps)"
proof (induction ps arbitrary: w ss r)
  case Nil
  then show ?case by simp
next
  case (Cons p ps)
  show ?case
  proof (cases "file_section e w p")
    case (Inl x)
    with Cons.prems show ?thesis by auto
  next
    case (Inr s)
    obtain ss' r' where rec: "write_loop e (w @ s) ps = (ss', r')"
      by (cases "write_loop e (w @ s) ps")
    with Inr Cons.prems have "ss = s # ss'" "r = r'" by simp_all
    with Cons.IH [OF rec] show ?thesis by simp
  qed
qed

text \<open>
  The \<open>i\<close>-th section is the section of the \<open>i\<close>-th path, written after the sections
  before it.
\<close>

lemma write_loop_nth:
  "write_loop e w ps = (ss, r) \<Longrightarrow> i < length ss \<Longrightarrow>
   file_section e (w @ concat (take i ss)) (ps ! i) = Inr (ss ! i)"
proof (induction ps arbitrary: w ss r i)
  case Nil
  then show ?case by simp
next
  case (Cons p ps)
  show ?case
  proof (cases "file_section e w p")
    case (Inl x)
    with Cons.prems show ?thesis by simp
  next
    case (Inr s)
    obtain ss' r' where rec: "write_loop e (w @ s) ps = (ss', r')"
      by (cases "write_loop e (w @ s) ps")
    with Inr Cons.prems(1) have ss: "ss = s # ss'" by simp
    show ?thesis
    proof (cases i)
      case 0
      with Inr ss show ?thesis by simp
    next
      case (Suc j)
      with Cons.prems(2) ss have "j < length ss'" by simp
      from Cons.IH [OF rec this] show ?thesis using Suc ss by simp
    qed
  qed
qed

text \<open>The loop ends without an exception when every turn does.\<close>

lemma write_loop_completes:
  "(\<And>p w. p \<in> set ps \<Longrightarrow> \<exists>s. file_section e w p = Inr s) \<Longrightarrow>
   snd (write_loop e w ps) = None"
proof (induction ps arbitrary: w)
  case Nil
  then show ?case by simp
next
  case (Cons p ps)
  from Cons.prems [of p w] obtain s where s: "file_section e w p = Inr s" by auto
  have "snd (write_loop e (w @ s) ps) = None"
    by (rule Cons.IH) (simp add: Cons.prems)
  with s show ?case by (cases "write_loop e (w @ s) ps") auto
qed

text \<open>What an exception of the loop leaves: no text, or the delimiter line of the turn.\<close>

lemma write_loop_abort:
  "write_loop e w ps = (ss, Some (err, part)) \<Longrightarrow>
   (\<And>p. p \<in> set ps \<Longrightarrow> take (length (root e)) p = root e) \<Longrightarrow>
   err = UnicodeEncodeError \<and> length ss < length ps
   \<and> (part = [] \<or> (\<exists>rel. ps ! length ss = root e @ rel \<and> part = delimiter rel))"
proof (induction ps arbitrary: w ss)
  case Nil
  then show ?case by simp
next
  case (Cons p ps)
  have "take (length (root e)) p = root e" using Cons.prems(2) by simp
  then have p: "p = root e @ drop (length (root e)) p" by (metis append_take_drop_id)
  show ?case
  proof (cases "file_section e w p")
    case (Inl x)
    with Cons.prems(1) have ss: "ss = []" and x: "x = (err, part)" by simp_all
    from Inl x p have "file_section e w (root e @ drop (length (root e)) p) = Inl (err, part)"
      by simp
    from file_section_Inl [OF this] ss p show ?thesis by auto
  next
    case (Inr s)
    obtain ss' r' where rec: "write_loop e (w @ s) ps = (ss', r')"
      by (cases "write_loop e (w @ s) ps")
    with Inr Cons.prems(1) have ss: "ss = s # ss'" and r: "r' = Some (err, part)" by simp_all
    from Cons.IH [OF rec [unfolded r]] Cons.prems(2) ss show ?thesis by simp
  qed
qed

lemma sections_loop:
  "children e = Some ch \<Longrightarrow>
   sections e =
     (if \<not> encodable (join [NL] (tree_lines e ch)) then ([], Some (UnicodeEncodeError, []))
      else write_loop e (preamble (tree_lines e ch)) (sort (files e)))"
  by (simp add: sections_def)

lemma sections_length:
  assumes "sections e = (ss, r)"
  shows "length ss \<le> length (files e) \<and> (r = None \<longrightarrow> length ss = length (files e))"
proof -
  obtain ch where ch: "children e = Some ch" using children_total by blast
  show ?thesis
  proof (cases "encodable (join [NL] (tree_lines e ch))")
    case True
    with assms ch have "write_loop e (preamble (tree_lines e ch)) (sort (files e)) = (ss, r)"
      by (simp add: sections_loop)
    from write_loop_length [OF this] show ?thesis by simp
  next
    case False
    with assms ch show ?thesis by (auto simp: sections_loop)
  qed
qed

lemma sections_nth:
  assumes "children e = Some ch" "sections e = (ss, r)" "i < length ss"
  shows "\<exists>rel. sort (files e) ! i = root e @ rel \<and> root e @ rel \<in> set (files e) \<and> rel \<noteq> []
    \<and> file_section e (preamble (tree_lines e ch) @ concat (take i ss)) (root e @ rel) = Inr (ss ! i)"
proof -
  from assms have enc: "encodable (join [NL] (tree_lines e ch))"
    by (auto simp: sections_loop split: if_splits)
  with assms(1,2) have wl: "write_loop e (preamble (tree_lines e ch)) (sort (files e)) = (ss, r)"
    by (simp add: sections_loop)
  from write_loop_length [OF this] have "length ss \<le> length (sort (files e))" by simp
  with assms(3) have i: "i < length (sort (files e))" by simp
  then have "sort (files e) ! i \<in> set (sort (files e))" by (rule nth_mem)
  then have mem: "sort (files e) ! i \<in> set (files e)" by simp
  then obtain rel where rel: "sort (files e) ! i = root e @ rel" "file_at (tree e) rel"
    by (auto simp: files_iff)
  from write_loop_nth [OF wl assms(3)] rel mem file_at_nonempty [OF rel(2)] show ?thesis
    by auto
qed

lemma section_body:
  "file_section e w (root e @ rel) = Inr s \<Longrightarrow> \<exists>body. s = delimiter rel @ body"
  by (auto simp: file_section_under_root split: if_splits)

lemma sections_nth_content:
  assumes "children e = Some ch" "sections e = (ss, r)" "i < length ss"
    "sort (files e) ! i = root e @ rel"
    "\<And>w. file_content e w (root e @ rel) = c"
  shows "ss ! i = delimiter rel @ c @ (if endswith_nl c then [] else [NL]) @ [NL]"
proof -
  from sections_nth [OF assms(1-3)] assms(4)
  have "file_section e (preamble (tree_lines e ch) @ concat (take i ss)) (root e @ rel) = Inr (ss ! i)"
    by auto
  then show ?thesis by (auto simp: file_section_under_root assms(5) split: if_splits)
qed

lemma export_sections:
  "children e = Some ch \<Longrightarrow>
   export e =
     (if \<not> encodable (join [NL] (tree_lines e ch)) then (tree_header, Some UnicodeEncodeError)
      else
        (case sections e of
           (ss, None) \<Rightarrow> (preamble (tree_lines e ch) @ concat ss, None)
         | (ss, Some (err, part)) \<Rightarrow> (preamble (tree_lines e ch) @ concat ss @ part, Some err)))"
  by (simp add: export_def sections_def)

text \<open>A \<open>ValueError\<close> ends no run.\<close>

lemma sections_no_value_error: "sections e = (ss, Some (err, part)) \<Longrightarrow> err = UnicodeEncodeError"
proof -
  obtain ch where ch: "children e = Some ch" using children_total by blast
  assume a: "sections e = (ss, Some (err, part))"
  show ?thesis
  proof (cases "encodable (join [NL] (tree_lines e ch))")
    case True
    with a ch have "write_loop e (preamble (tree_lines e ch)) (sort (files e)) = (ss, Some (err, part))"
      by (simp add: sections_loop)
    from write_loop_abort [OF this] show ?thesis by (simp add: files_under_root)
  next
    case False
    with a ch show ?thesis by (simp add: sections_loop)
  qed
qed









lemma read_text_safely_error:
  "read_text_safely reads = Inl ex \<Longrightarrow> \<exists>m k. ex = OtherError m \<and> reads k = OSError m"
  by (auto simp: read_text_safely_def read_text_def decode_def
      split: sum.splits exn.splits io_result.splits option.splits)

section \<open>Runs that no encoding error ends\<close>

lemma encodable_join:
  "(\<And>x. x \<in> set xs \<Longrightarrow> encodable x) \<Longrightarrow> encodable sep \<Longrightarrow> encodable (join sep xs)"
  by (induction sep xs rule: join.induct) auto

lemma encodable_connectors [simp]:
  "encodable connector_last" "encodable connector_mid" "encodable extension_last"
  "encodable extension_mid"
  by (simp_all add: connector_last_def connector_mid_def extension_last_def extension_mid_def
      surrogate_def)

lemma encodable_add_tree:
  "\<forall>q c. c \<in> set (children_get ch q) \<longrightarrow> encodable c \<Longrightarrow> encodable prefix \<Longrightarrow>
   line \<in> set (add_tree e ch parent prefix) \<Longrightarrow> encodable line"
proof (induction e ch parent prefix arbitrary: line rule: add_tree.induct)
  case (1 e ch parent prefix)
  let ?es = "sort_children e ch parent"
  from "1.prems"(3) obtain i name where mem: "(i, name) \<in> set (enumerate 0 ?es)"
    and line: "line = prefix @ (if i = length ?es - 1 then connector_last else connector_mid) @ name
       \<or> (is_dir e (parent @ [name]) \<and> line \<in> set (add_tree e ch (parent @ [name])
            (prefix @ (if i = length ?es - 1 then extension_last else extension_mid))))"
    by (subst (asm) add_tree.simps) (auto simp: Let_def split: if_splits)
  from mem have "name \<in> set ?es"
    by (auto simp: in_set_enumerate_eq simp del: set_sort_children)
  then have n: "encodable name" using "1.prems"(1) by simp
  from line show ?case
  proof
    assume "line = prefix @ (if i = length ?es - 1 then connector_last else connector_mid) @ name"
    with n "1.prems"(2) show ?thesis by simp
  next
    assume a: "is_dir e (parent @ [name]) \<and> line \<in> set (add_tree e ch (parent @ [name])
            (prefix @ (if i = length ?es - 1 then extension_last else extension_mid)))"
    then have d: "is_dir e (parent @ [name])"
      and l: "line \<in> set (add_tree e ch (parent @ [name])
            (prefix @ (if i = length ?es - 1 then extension_last else extension_mid)))"
      by simp_all
    have p: "encodable (prefix @ (if i = length ?es - 1 then extension_last else extension_mid))"
      using "1.prems"(2) by simp
    from "1.IH" [OF refl mem refl refl refl refl d "1.prems"(1) p l] show ?thesis .
  qed
qed

lemma encodable_delimiter:
  "(\<And>x. x \<in> set rel \<Longrightarrow> encodable x) \<Longrightarrow> encodable (delimiter rel)"
  by (simp add: delimiter_def as_posix_def encodable_join)

lemma encodable_path_str:
  "(\<And>x. x \<in> set parts \<Longrightarrow> encodable x) \<Longrightarrow> encodable (path_str parts)"
  by (cases parts) (simp_all add: path_str_def encodable_join)

lemma writable_names:
  assumes "writable e" "root e @ rel \<in> set (files e)" "x \<in> set rel"
  shows "encodable x"
  using assms by (auto simp: writable_def list_all_iff)

lemma writable_tree_lines:
  assumes "writable e" "children e = Some ch"
  shows "encodable (join [NL] (tree_lines e ch))"
proof -
  have idx: "encodable c" if "c \<in> set (children_get ch q)" for q c
  proof -
    from that obtain rel i where "root e @ rel \<in> set (files e)" "i < length rel" "rel ! i = c"
      by (auto simp: children_entries [OF assms(2)])
    then show ?thesis using writable_names [OF assms(1)] by (metis nth_mem)
  qed
  have "encodable line" if "line \<in> set (add_tree e ch [] [])" for line
  proof (rule encodable_add_tree [OF _ _ that])
    show "\<forall>q c. c \<in> set (children_get ch q) \<longrightarrow> encodable c"
      using idx by blast
    show "encodable []" by simp
  qed
  moreover have "encodable (path_str (root e))"
    using assms(1) by (intro encodable_path_str) (simp add: writable_def list_all_iff)
  ultimately show ?thesis
    by (intro encodable_join) (auto simp: tree_lines_def)
qed

lemma writable_content:
  assumes "writable e" "p \<in> set (files e)"
  shows "encodable (file_content e w p)"
proof (cases "read_text_safely (read_at e w p)")
  case (Inl ex)
  from read_text_safely_error [OF this] obtain m k where m: "ex = OtherError m"
    "read_at e w p k = OSError m"
    by blast
  from m(2) assms have "encodable m" by (auto simp: writable_def)
  with Inl m(1) show ?thesis by (simp add: file_content_def placeholder_def describe_def)
next
  case (Inr c)
  then show ?thesis by (simp add: file_content_def read_text_safely_encodable)
qed

lemma writable_completes:
  assumes "writable e"
  shows "snd (sections e) = None \<and> length (fst (sections e)) = length (files e)
    \<and> snd (export e) = None"
proof -
  obtain ch where ch: "children e = Some ch" using children_total by blast
  note tl = writable_tree_lines [OF assms ch]
  have turn: "\<exists>s. file_section e w p = Inr s" if "p \<in> set (sort (files e))" for p w
  proof -
    from that obtain rel where rel: "p = root e @ rel" "root e @ rel \<in> set (files e)"
      by (auto simp: files_iff)
    have "encodable (delimiter rel)"
      using writable_names [OF assms rel(2)] by (rule encodable_delimiter)
    then show ?thesis
      by (simp add: rel(1) file_section_under_root writable_content [OF assms rel(2)])
  qed
  have "snd (write_loop e (preamble (tree_lines e ch)) (sort (files e))) = None"
    using turn by (rule write_loop_completes)
  with ch tl have s: "snd (sections e) = None" by (simp add: sections_loop)
  obtain ss r where sr: "sections e = (ss, r)" by (cases "sections e")
  with s have r: "r = None" by simp
  from sections_length [OF sr] r have "length ss = length (files e)" by simp
  moreover have "snd (export e) = None"
    using ch tl sr r by (simp add: export_sections)
  ultimately show ?thesis using s sr by simp
qed

section \<open>What the dump loop and the tree lines depend on\<close>

lemma file_section_cong:
  assumes "root e' = root e" "flushed e' = flushed e"
    and "p \<noteq> output_path e \<Longrightarrow> rd e' p = rd e p"
  shows "file_section e' w p = file_section e w p"
proof -
  have "read_at e' v p = read_at e v p" for v
    using assms by (auto simp: read_at_def output_path_def)
  then have c: "file_content e' v p = file_content e v p" for v
    by (simp add: file_content_def)
  show ?thesis
    by (cases "relative_to p (root e)") (simp_all add: file_section_def Let_def assms(1) c)
qed

lemma write_loop_cong:
  assumes "root e' = root e" "flushed e' = flushed e"
    and "\<And>p. p \<in> set ps \<Longrightarrow> p \<noteq> output_path e \<Longrightarrow> rd e' p = rd e p"
  shows "write_loop e' w ps = write_loop e w ps"
  using assms(3)
proof (induction ps arbitrary: w)
  case Nil
  then show ?case by simp
next
  case (Cons p ps)
  have "file_section e' w p = file_section e w p"
    by (rule file_section_cong [OF assms(1,2)]) (simp add: Cons.prems)
  moreover have "write_loop e' v ps = write_loop e v ps" for v
    by (rule Cons.IH) (simp add: Cons.prems)
  ultimately show ?case by (simp cong: sum.case_cong)
qed

lemma file_section_prefix:
  assumes "p \<noteq> output_path e"
  shows "file_section e w p = file_section e w' p"
proof -
  have "read_at e v p = read_at e v' p" for v v'
    using assms by (intro ext) (simp add: read_at_def)
  then have "file_content e v p = file_content e v' p" for v v'
    unfolding file_content_def by metis
  then have c: "file_content e (w @ d) p = file_content e (w' @ d) p" for d
    by blast
  show ?thesis
    by (cases "relative_to p (root e)") (simp_all add: file_section_def Let_def c)
qed

lemma file_content_output:
  "file_content e w (output_path e) =
     (case read_text_safely (\<lambda>k. Bytes (take (flushed e w) (utf8_encode w))) of
        Inr c \<Rightarrow> c | Inl ex \<Rightarrow> placeholder ex)"
proof -
  have "read_at e w (output_path e) = (\<lambda>k. Bytes (take (flushed e w) (utf8_encode w)))"
    by (intro ext) (simp add: read_at_def)
  then show ?thesis by (simp add: file_content_def)
qed

text \<open>Reading bytes never ends in the placeholder, and what it returns can be written.\<close>

lemma read_bytes_decoded:
  "\<exists>c. read_text_safely (\<lambda>k. Bytes bs) = Inr c \<and> encodable c"
proof (cases "read_text_safely (\<lambda>k. Bytes bs)")
  case (Inl ex)
  from read_text_safely_error [OF this] show ?thesis by simp
next
  case (Inr c)
  then show ?thesis by (simp add: read_text_safely_encodable)
qed

lemma file_content_output_encodable: "encodable (file_content e w (output_path e))"
  using read_bytes_decoded [of "take (flushed e w) (utf8_encode w)"]
  by (auto simp: file_content_output)

text \<open>
  The text written before the loop matters to the section of the output file alone,
  and only to its content.
\<close>

lemma file_section_two_prefixes:
  "(\<exists>x. file_section e w p = Inl x \<and> file_section e w' p = Inl x)
   \<or> (\<exists>s s'. file_section e w p = Inr s \<and> file_section e w' p = Inr s'
         \<and> (p \<noteq> output_path e \<longrightarrow> s' = s))"
proof (cases "p = output_path e")
  case True
  then have p: "p = root e @ [output_name]" by (simp add: output_path_def)
  show ?thesis
    unfolding p file_section_under_root
    using file_content_output_encodable [of e] by (simp add: output_path_def)
next
  case False
  from file_section_prefix [OF this, of w w'] show ?thesis
    by (cases "file_section e w' p") auto
qed

lemma write_loop_two_prefixes:
  "write_loop e w ps = (ss, r) \<Longrightarrow> write_loop e w' ps = (ss', r') \<Longrightarrow>
   r' = r \<and> length ss' = length ss
   \<and> (\<forall>i<length ss. ps ! i \<noteq> output_path e \<longrightarrow> ss' ! i = ss ! i)"
proof (induction ps arbitrary: w w' ss ss' r r')
  case Nil
  then show ?case by auto
next
  case (Cons p ps)
  from file_section_two_prefixes [of e w p w'] show ?case
  proof (elim disjE exE conjE)
    fix x
    assume "file_section e w p = Inl x" "file_section e w' p = Inl x"
    with Cons.prems show ?thesis by auto
  next
    fix s s'
    assume s: "file_section e w p = Inr s" "file_section e w' p = Inr s'"
      and eq: "p \<noteq> output_path e \<longrightarrow> s' = s"
    obtain t q where t: "write_loop e (w @ s) ps = (t, q)"
      by (cases "write_loop e (w @ s) ps")
    obtain t' q' where t': "write_loop e (w' @ s') ps = (t', q')"
      by (cases "write_loop e (w' @ s') ps")
    from s t t' Cons.prems have ss: "ss = s # t" "ss' = s' # t'" and rr: "r = q" "r' = q'"
      by simp_all
    from Cons.IH [OF t t'] have ih: "q' = q" "length t' = length t"
      "\<And>i. i < length t \<Longrightarrow> ps ! i \<noteq> output_path e \<Longrightarrow> t' ! i = t ! i"
      by simp_all
    have "(p # ps) ! i \<noteq> output_path e \<longrightarrow> ss' ! i = ss ! i" if "i < length ss" for i
      using that ss eq ih(3) by (cases i) simp_all
    with ih(1,2) ss rr show ?thesis by simp
  qed
qed




lemma writable_cong:
  assumes "mset (files e') = mset (files e)" "root e' = root e" "rd e' = rd e"
    "flushed e' = flushed e"
  shows "writable e' = writable e"
proof -
  from assms(1) have s: "set (files e') = set (files e)" by (rule mset_eq_setD)
  have "read_at e' w p k = read_at e w p k" for w p k
    by (simp add: read_at_def output_path_def assms)
  then show ?thesis by (simp add: writable_def s assms(2))
qed

section \<open>Facts about the worked directories\<close>

lemma demo_files:
  "files demo = [[ustr ''/'', ustr ''r'', ustr ''a.txt''],
                 [ustr ''/'', ustr ''r'', ustr ''sub'', ustr ''b.txt'']]"
  by (simp add: files_def demo_def demo_tree_def filenames_def dirnames_def exclude_dirs_def
      ustr_def)











lemma listed_ba_files: "files listed_ba = [[ustr ''/'', ustr ''r'', ustr ''b''], [ustr ''/'', ustr ''r'', ustr ''a'']]"
  by (simp add: files_def listed_ba_def demo_def filenames_def dirnames_def exclude_dirs_def ustr_def)

lemma listed_ab_files: "files listed_ab = [[ustr ''/'', ustr ''r'', ustr ''a''], [ustr ''/'', ustr ''r'', ustr ''b'']]"
  by (simp add: files_def listed_ab_def demo_def filenames_def dirnames_def exclude_dirs_def ustr_def)


lemma demo_is_dir: "is_dir demo [ustr ''sub'']" "\<not> is_dir demo [ustr ''a.txt'']"
  by (simp_all add: is_dir_def demo_def demo_tree_def ustr_def)

lemma demo_sort_children: "sort_children demo demo_index [] = [ustr ''sub'', ustr ''a.txt'']"
  by (simp add: sort_children_def children_get_def demo_index_def demo_is_dir)


text \<open>No write of these runs raises.\<close>

lemma demo_rd_bytes: "demo_rd p k \<noteq> OSError m"
  by (simp add: demo_rd_def)

lemma demo_writable: "writable demo"
  unfolding writable_def demo_files
  by (simp add: read_at_def demo_rd_bytes) (simp add: demo_def demo_rd_bytes)





lemma listed_ab_writable: "writable listed_ab"
  unfolding writable_def listed_ab_files
  by (simp add: read_at_def) (simp add: listed_ab_def demo_def demo_rd_bytes)

text \<open>
  The scenario, run: the tree lists \<open>sub\<close>, with \<open>b.txt\<close> under it, then \<open>a.txt\<close>,
  and never \<open>node_modules\<close>; the sections are those of \<open>a.txt\<close>, with \<open>hi\<close> and an
  appended line break, and of \<open>sub/b.txt\<close>.
\<close>

lemma demo_add_tree:
  "add_tree demo demo_index [] [] =
     [connector_mid @ ustr ''sub'',
      extension_mid @ connector_last @ ustr ''b.txt'',
      connector_last @ ustr ''a.txt'']"
proof -
  have sub: "sort_children demo demo_index [ustr ''sub''] = [ustr ''b.txt'']"
    by (simp add: sort_children_def children_get_def demo_index_def ustr_def)
  have nb: "\<not> is_dir demo [ustr ''sub'', ustr ''b.txt'']"
    by (simp add: is_dir_def demo_def demo_tree_def ustr_def)
  have inner: "add_tree demo demo_index [ustr ''sub''] extension_mid
      = [extension_mid @ connector_last @ ustr ''b.txt'']"
    by (subst add_tree.simps) (simp add: sub nb enumerate_eq_zip)
  show ?thesis
    by (subst add_tree.simps)
       (simp add: demo_sort_children demo_is_dir enumerate_eq_zip inner)
qed







text \<open>The two listings of the directory with \<open>A\<close> and \<open>a\<close>.\<close>

lemma tie_Aa_files:
  "files tie_Aa = [[ustr ''/'', ustr ''r'', ustr ''A''], [ustr ''/'', ustr ''r'', ustr ''a''],
                   [ustr ''/'', ustr ''r'', output_name]]"
  by (simp add: files_def tie_Aa_def filenames_def dirnames_def exclude_dirs_def output_name_def
      ustr_def)

lemma tie_aA_files:
  "files tie_aA = [[ustr ''/'', ustr ''r'', ustr ''a''], [ustr ''/'', ustr ''r'', ustr ''A''],
                   [ustr ''/'', ustr ''r'', output_name]]"
  by (simp add: files_def tie_aA_def tie_Aa_def filenames_def dirnames_def exclude_dirs_def
      output_name_def ustr_def)

lemma tie_sorted:
  "sort [[ustr ''/'', ustr ''r'', ustr ''A''], [ustr ''/'', ustr ''r'', ustr ''a''],
         [ustr ''/'', ustr ''r'', output_name]]
   = [[ustr ''/'', ustr ''r'', ustr ''A''], [ustr ''/'', ustr ''r'', output_name],
      [ustr ''/'', ustr ''r'', ustr ''a'']]"
  "sort [[ustr ''/'', ustr ''r'', ustr ''a''], [ustr ''/'', ustr ''r'', ustr ''A''],
         [ustr ''/'', ustr ''r'', output_name]]
   = [[ustr ''/'', ustr ''r'', ustr ''A''], [ustr ''/'', ustr ''r'', output_name],
      [ustr ''/'', ustr ''r'', ustr ''a'']]"
  by (simp_all add: output_name_def ustr_def)

lemma tie_Aa_children:
  "children tie_Aa = Some [([], [ustr ''A'', ustr ''a'', output_name])]"
  unfolding children_def tie_Aa_files
  by (simp add: tie_Aa_def relative_to_def register_parts_def register_def children_get_def
      output_name_def ustr_def)

lemma tie_aA_children:
  "children tie_aA = Some [([], [ustr ''a'', ustr ''A'', output_name])]"
  unfolding children_def tie_aA_files
  by (simp add: tie_aA_def tie_Aa_def relative_to_def register_parts_def register_def
      children_get_def output_name_def ustr_def)

lemma tie_not_dir: "\<not> is_dir tie_Aa [x]" "\<not> is_dir tie_aA [x]"
  by (auto simp: is_dir_def tie_Aa_def tie_aA_def split: if_splits)

lemma tie_Aa_sort_children:
  "sort_children tie_Aa [([], [ustr ''A'', ustr ''a'', output_name])] []
     = [output_name, ustr ''A'', ustr ''a'']"
  by (simp add: sort_children_def children_get_def tie_not_dir)
     (simp add: tie_Aa_def ascii_lower_def output_name_def ustr_def)

lemma tie_aA_sort_children:
  "sort_children tie_aA [([], [ustr ''a'', ustr ''A'', output_name])] []
     = [output_name, ustr ''a'', ustr ''A'']"
  by (simp add: sort_children_def children_get_def tie_not_dir)
     (simp add: tie_aA_def tie_Aa_def ascii_lower_def output_name_def ustr_def)

lemma tie_Aa_tree:
  "add_tree tie_Aa [([], [ustr ''A'', ustr ''a'', output_name])] [] []
     = [connector_mid @ output_name, connector_mid @ ustr ''A'', connector_last @ ustr ''a'']"
  by (subst add_tree.simps) (simp add: tie_Aa_sort_children tie_not_dir enumerate_eq_zip)

lemma tie_aA_tree:
  "add_tree tie_aA [([], [ustr ''a'', ustr ''A'', output_name])] [] []
     = [connector_mid @ output_name, connector_mid @ ustr ''a'', connector_last @ ustr ''A'']"
  by (subst add_tree.simps) (simp add: tie_aA_sort_children tie_not_dir enumerate_eq_zip)

lemma utf8_encode_append: "utf8_encode (a @ b) = utf8_encode a @ utf8_encode b"
  by (simp add: utf8_encode_def)

lemma char_of_x: "char_of (120::nat) = CHR ''x''"
proof -
  have "of_char (char_of (120::nat)) = (of_char CHR ''x'' :: nat)" by simp
  then show ?thesis by (simp only: of_char_eq_iff)
qed

lemma utf8_encode_replicate_x: "utf8_encode (replicate n 120) = replicate n CHR ''x''"
  by (induction n) (simp_all add: utf8_encode_def encode_char_def char_of_x)

lemma utf8_decode_replicate_x: "utf8_decode (replicate n CHR ''x'') = Some (replicate n 120)"
  by (induction n) simp_all

lemma universal_newlines_id: "CR \<notin> set s \<Longrightarrow> universal_newlines s = s"
  by (induction s rule: universal_newlines.induct) auto

lemma tie_Aa_lines:
  "tree_lines tie_Aa [([], [ustr ''A'', ustr ''a'', output_name])] = tie_lines (ustr ''A'') (ustr ''a'')"
  by (simp add: tree_lines_def tie_Aa_tree tie_lines_def) (simp add: tie_Aa_def path_str_def ustr_def)

lemma tie_aA_lines:
  "tree_lines tie_aA [([], [ustr ''a'', ustr ''A'', output_name])] = tie_lines (ustr ''a'') (ustr ''A'')"
  by (simp add: tree_lines_def tie_aA_tree tie_lines_def)
     (simp add: tie_aA_def tie_Aa_def path_str_def ustr_def)

lemma tie_head_bytes:
  "length (utf8_encode (tie_head (ustr ''A'') (ustr ''a''))) = 180"
  "length (utf8_encode (tie_head (ustr ''a'') (ustr ''A''))) = 180"
  by (simp_all add: tie_head_def preamble_def tie_lines_def delimiter_def as_posix_def
      connector_mid_def connector_last_def output_name_def ustr_def NL_def utf8_encode_def
      encode_char_def)

lemma tie_head_decode:
  "utf8_decode (utf8_encode (tie_head (ustr ''A'') (ustr ''a'')) @ replicate k CHR ''x'')
     = Some (tie_head (ustr ''A'') (ustr ''a'') @ replicate k 120)"
  "utf8_decode (utf8_encode (tie_head (ustr ''a'') (ustr ''A'')) @ replicate k CHR ''x'')
     = Some (tie_head (ustr ''a'') (ustr ''A'') @ replicate k 120)"
  by (simp_all add: tie_head_def preamble_def tie_lines_def delimiter_def as_posix_def
      connector_mid_def connector_last_def output_name_def ustr_def NL_def utf8_encode_def
      encode_char_def utf8_decode_replicate_x cont_def cbits_def)

lemma tie_head_no_CR:
  "CR \<notin> set (tie_head (ustr ''A'') (ustr ''a''))" "CR \<notin> set (tie_head (ustr ''a'') (ustr ''A''))"
  by (simp_all add: tie_head_def preamble_def tie_lines_def delimiter_def as_posix_def
      connector_mid_def connector_last_def output_name_def ustr_def NL_def CR_def)

lemma tie_head_differ: "tie_head (ustr ''A'') (ustr ''a'') \<noteq> tie_head (ustr ''a'') (ustr ''A'')"
  by (simp add: tie_head_def preamble_def tie_lines_def ustr_def)

lemma tie_flushed:
  assumes "length (utf8_encode h) = 180" "length (utf8_encode t) = 33"
  shows "take (blocks (h @ replicate 9000 120 @ t)) (utf8_encode (h @ replicate 9000 120 @ t))
     = utf8_encode h @ replicate 8012 CHR ''x''"
proof -
  have "length (utf8_encode (h @ replicate 9000 120 @ t)) = 9213"
    by (simp add: utf8_encode_append utf8_encode_replicate_x assms)
  then have "blocks (h @ replicate 9000 120 @ t) = 8192" by (simp add: blocks_def)
  then show ?thesis
    by (simp add: utf8_encode_append utf8_encode_replicate_x assms)
qed

lemma tie_tail_bytes: "length (utf8_encode ([NL, NL] @ delimiter [output_name])) = 33"
  by (simp add: delimiter_def as_posix_def output_name_def ustr_def NL_def utf8_encode_def
      encode_char_def)

lemma tie_content:
  "read_text_safely (\<lambda>k. Bytes (replicate 9000 CHR ''x'')) = Inr (replicate 9000 120)"
  by (simp add: read_text_safely_def read_text_def decode_def utf8_decode_replicate_x
      universal_newlines_id CR_def)

lemma tie_self_content:
  assumes "length (utf8_encode h) = 180" "CR \<notin> set h"
    and "utf8_decode (utf8_encode h @ replicate 8012 CHR ''x'') = Some (h @ replicate 8012 120)"
  shows "read_text_safely (\<lambda>k. Bytes
      (take (blocks (h @ replicate 9000 120 @ [NL, NL] @ delimiter [output_name]))
         (utf8_encode (h @ replicate 9000 120 @ [NL, NL] @ delimiter [output_name]))))
     = Inr (h @ replicate 8012 120)"
proof -
  have "CR \<notin> set (h @ replicate 8012 120)" using assms(2) by (simp add: CR_def)
  then have "universal_newlines (h @ replicate 8012 120) = h @ replicate 8012 120"
    by (rule universal_newlines_id)
  then show ?thesis
    unfolding tie_flushed [OF assms(1) tie_tail_bytes]
    by (simp add: read_text_safely_def read_text_def decode_def assms(3))
qed

lemma tie_Aa_writable: "writable tie_Aa"
  unfolding writable_def tie_Aa_files
  by (simp add: read_at_def output_name_def) (simp add: tie_Aa_def)

lemma tie_aA_writable: "writable tie_aA"
  unfolding writable_def tie_aA_files
  by (simp add: read_at_def output_name_def) (simp add: tie_aA_def tie_Aa_def)

text \<open>
  The section of the output file in a run over a directory with \<open>A\<close>, \<open>a\<close> and the
  output file, whatever the order of the listing: the first block of the document.
\<close>

lemma tie_section:
  assumes ch: "children e = Some ch" and w: "writable e"
    and f: "sort (files e) = [root e @ [ustr ''A''], root e @ [output_name], root e @ [ustr ''a'']]"
    and rd: "rd e = (\<lambda>p k. Bytes (replicate 9000 CHR ''x''))" and fl: "flushed e = blocks"
    and h: "preamble (tree_lines e ch) @ delimiter [ustr ''A''] = h"
      "length (utf8_encode h) = 180" "CR \<notin> set h"
      "utf8_decode (utf8_encode h @ replicate 8012 CHR ''x'') = Some (h @ replicate 8012 120)"
  shows "snd (sections e) = None
     \<and> fst (sections e) ! 1 = delimiter [output_name] @ h @ replicate 8012 120 @ [NL, NL]"
proof -
  obtain ss r where ss: "sections e = (ss, r)" by (cases "sections e")
  from writable_completes [OF w] ss have r: "r = None" and "length ss = length (files e)"
    by simp_all
  moreover have "length (files e) = length (sort (files e))" by simp
  ultimately have len: "length ss = 3" unfolding f by simp
  have na: "root e @ [ustr ''A''] \<noteq> output_path e"
    by (simp add: output_path_def output_name_def ustr_def)
  have ca: "file_content e v (root e @ [ustr ''A'']) = replicate 9000 120" for v
  proof -
    have "read_at e v (root e @ [ustr ''A'']) = (\<lambda>k. Bytes (replicate 9000 CHR ''x''))"
      by (intro ext) (simp add: read_at_def na rd)
    then show ?thesis by (simp add: file_content_def tie_content)
  qed
  have "\<not> endswith_nl (replicate 9000 120)" by (simp add: endswith_nl_def NL_def)
  with sections_nth_content [OF ch ss _ _ ca, of 0] len f
  have s0: "ss ! 0 = delimiter [ustr ''A''] @ replicate 9000 120 @ [NL, NL]" by simp
  from len have t1: "concat (take 1 ss) = ss ! 0"
    by (cases ss) simp_all
  from sections_nth [OF ch ss, of 1] len f
  have "file_section e (preamble (tree_lines e ch) @ concat (take 1 ss)) (root e @ [output_name])
      = Inr (ss ! 1)"
    by auto
  then have s1: "ss ! 1 = delimiter [output_name]
      @ file_content e (preamble (tree_lines e ch) @ concat (take 1 ss) @ delimiter [output_name])
          (output_path e)
      @ (if endswith_nl (file_content e
            (preamble (tree_lines e ch) @ concat (take 1 ss) @ delimiter [output_name])
            (output_path e)) then [] else [NL]) @ [NL]"
    by (simp add: file_section_under_root output_path_def split: if_splits)
  have "concat (take 1 ss) = delimiter [ustr ''A''] @ replicate 9000 120 @ [NL, NL]"
    unfolding t1 s0 ..
  then have wq: "preamble (tree_lines e ch) @ concat (take 1 ss) @ delimiter [output_name]
      = h @ replicate 9000 120 @ [NL, NL] @ delimiter [output_name]"
    unfolding h(1) [symmetric] by simp
  have c: "file_content e (preamble (tree_lines e ch) @ concat (take 1 ss) @ delimiter [output_name])
      (output_path e) = h @ replicate 8012 120"
    unfolding wq file_content_output fl tie_self_content [OF h(2-4)] by simp
  have "\<not> endswith_nl (h @ replicate 8012 120)" by (simp add: endswith_nl_def NL_def)
  with s1 c have "ss ! 1 = delimiter [output_name] @ h @ replicate 8012 120 @ [NL, NL]" by simp
  with ss r show ?thesis by simp
qed

lemma tie_Aa_section:
  "snd (sections tie_Aa) = None
   \<and> fst (sections tie_Aa) ! 1
       = delimiter [output_name] @ tie_head (ustr ''A'') (ustr ''a'') @ replicate 8012 120 @ [NL, NL]"
proof (rule tie_section [OF tie_Aa_children tie_Aa_writable])
  show "sort (files tie_Aa)
      = [root tie_Aa @ [ustr ''A''], root tie_Aa @ [output_name], root tie_Aa @ [ustr ''a'']]"
    unfolding tie_Aa_files tie_sorted by (simp add: tie_Aa_def)
  show "rd tie_Aa = (\<lambda>p k. Bytes (replicate 9000 CHR ''x''))" by (simp add: tie_Aa_def)
  show "flushed tie_Aa = blocks" by (simp add: tie_Aa_def)
  show "preamble (tree_lines tie_Aa [([], [ustr ''A'', ustr ''a'', output_name])])
      @ delimiter [ustr ''A''] = tie_head (ustr ''A'') (ustr ''a'')"
    by (simp add: tie_Aa_lines tie_head_def)
qed (rule tie_head_bytes tie_head_no_CR tie_head_decode)+

lemma tie_aA_section:
  "snd (sections tie_aA) = None
   \<and> fst (sections tie_aA) ! 1
       = delimiter [output_name] @ tie_head (ustr ''a'') (ustr ''A'') @ replicate 8012 120 @ [NL, NL]"
proof (rule tie_section [OF tie_aA_children tie_aA_writable])
  show "sort (files tie_aA)
      = [root tie_aA @ [ustr ''A''], root tie_aA @ [output_name], root tie_aA @ [ustr ''a'']]"
    unfolding tie_aA_files tie_sorted by (simp add: tie_aA_def tie_Aa_def)
  show "rd tie_aA = (\<lambda>p k. Bytes (replicate 9000 CHR ''x''))" by (simp add: tie_aA_def tie_Aa_def)
  show "flushed tie_aA = blocks" by (simp add: tie_aA_def tie_Aa_def)
  show "preamble (tree_lines tie_aA [([], [ustr ''a'', ustr ''A'', output_name])])
      @ delimiter [ustr ''A''] = tie_head (ustr ''a'') (ustr ''A'')"
    by (simp add: tie_aA_lines tie_head_def)
qed (rule tie_head_bytes tie_head_no_CR tie_head_decode)+

section \<open>The claims\<close>

text \<open>
  C1. A path with a segment named as an excluded directory (so every file lying under
  such a directory, at any depth below the root) is not in the file list, is no
  entry of the child index, and the document has neither a tree line nor a file
  section for it: every tree line stands for another entry, every section written
  is that of another path, and the document is the two header lines alone, or the
  header, the tree and those sections, followed, when a write of the loop raised, by
  nothing or by the delimiter line of another path.
\<close>

theorem exclusion_invariant:
  assumes "d \<in> exclude_dirs" "d \<in> set rel"
  shows "root e @ rel \<notin> set (files e) \<and>
    (\<exists>ch ss r. children e = Some ch \<and> sections e = (ss, r)
       \<and> (\<forall>parent c. c \<in> set (children_get ch parent) \<longrightarrow> parent @ [c] \<noteq> rel)
       \<and> list_all2 (\<lambda>line q. q \<noteq> rel \<and> (\<exists>pre. line = pre @ last q))
            (add_tree e ch [] []) (tree_paths e ch [])
       \<and> length ss \<le> length (files e)
       \<and> (r = None \<longrightarrow> length ss = length (files e))
       \<and> (\<forall>i<length ss. \<exists>rel' body. rel' \<noteq> rel \<and> sort (files e) ! i = root e @ rel'
             \<and> ss ! i = delimiter rel' @ body)
       \<and> (fst (export e) = tree_header \<and> ss = []
          \<or> (\<exists>part. fst (export e) = preamble (tree_lines e ch) @ concat ss @ part
                \<and> (part = [] \<or> (\<exists>rel'. rel' \<noteq> rel \<and> root e @ rel' \<in> set (files e)
                      \<and> part = delimiter rel')))))"
proof -
  from assms have dirty: "\<not> clean rel" by (auto simp: clean_def)
  then have nf: "root e @ rel \<notin> set (files e)"
    by (auto simp: files_iff clean_def)
  obtain ch where ch: "children e = Some ch" using children_total by blast
  obtain ss r where ss: "sections e = (ss, r)" by (cases "sections e")
  note len = sections_length [OF ss]
  have idx: "parent @ [c] \<noteq> rel" if "c \<in> set (children_get ch parent)" for parent c
    using children_clean [OF ch that] dirty by auto
  have "q \<noteq> rel" if "q \<in> set (tree_paths e ch [])" for q
  proof -
    have "c \<notin> exclude_dirs" if "c \<in> set (children_get ch q)" for q c
      using children_clean [OF ch that] by (simp add: clean_def)
    with that have "clean q" by (intro tree_paths_clean [of q e ch "[]"]) (simp_all add: clean_def)
    with dirty show ?thesis by auto
  qed
  with add_tree_paths [of e ch "[]" "[]"]
  have tl: "list_all2 (\<lambda>line q. q \<noteq> rel \<and> (\<exists>pre. line = pre @ last q))
      (add_tree e ch [] []) (tree_paths e ch [])"
    by (auto simp: list_all2_conv_all_nth)
  have sec: "\<exists>rel' body. rel' \<noteq> rel \<and> sort (files e) ! i = root e @ rel'
      \<and> ss ! i = delimiter rel' @ body" if "i < length ss" for i
  proof -
    from sections_nth [OF ch ss that] obtain rel' where r: "sort (files e) ! i = root e @ rel'"
      "root e @ rel' \<in> set (files e)"
      "file_section e (preamble (tree_lines e ch) @ concat (take i ss)) (root e @ rel') = Inr (ss ! i)"
      by blast
    from r(2) nf have "rel' \<noteq> rel" by auto
    with r(1) section_body [OF r(3)] show ?thesis by blast
  qed
  have doc: "fst (export e) = tree_header \<and> ss = []
          \<or> (\<exists>part. fst (export e) = preamble (tree_lines e ch) @ concat ss @ part
                \<and> (part = [] \<or> (\<exists>rel'. rel' \<noteq> rel \<and> root e @ rel' \<in> set (files e)
                      \<and> part = delimiter rel')))"
  proof (cases "encodable (join [NL] (tree_lines e ch))")
    case False
    with ch ss show ?thesis by (simp add: export_sections sections_loop)
  next
    case True
    with ch ss have wl: "write_loop e (preamble (tree_lines e ch)) (sort (files e)) = (ss, r)"
      by (simp add: sections_loop)
    show ?thesis
    proof (cases r)
      case None
      with True ch ss have "fst (export e) = preamble (tree_lines e ch) @ concat ss @ []"
        by (simp add: export_sections)
      then show ?thesis by blast
    next
      case (Some x)
      obtain err part where x: "x = (err, part)" by (cases x)
      from True ch ss Some x have ex: "fst (export e) = preamble (tree_lines e ch) @ concat ss @ part"
        by (simp add: export_sections)
      from write_loop_abort [OF wl [unfolded Some x]]
      have l: "length ss < length (sort (files e))"
        and p: "part = [] \<or> (\<exists>rel'. sort (files e) ! length ss = root e @ rel' \<and> part = delimiter rel')"
        by (simp_all add: files_under_root)
      from l have "sort (files e) ! length ss \<in> set (sort (files e))" by (rule nth_mem)
      then have m: "sort (files e) ! length ss \<in> set (files e)" by simp
      have "part = [] \<or> (\<exists>rel'. rel' \<noteq> rel \<and> root e @ rel' \<in> set (files e)
                      \<and> part = delimiter rel')"
        using p m nf by auto
      with ex show ?thesis by blast
    qed
  qed
  from nf ch ss idx tl len sec doc show ?thesis by blast
qed

theorem exclusion_invariant_witness:
  "ustr ''node_modules'' \<in> exclude_dirs
   \<and> ustr ''node_modules'' \<in> set [ustr ''node_modules'', ustr ''x.js'']
   \<and> file_at (tree demo) [ustr ''node_modules'', ustr ''x.js'']
   \<and> root demo @ [ustr ''node_modules'', ustr ''x.js''] \<notin> set (files demo)
   \<and> (\<exists>ch ss. children demo = Some ch \<and> sections demo = (ss, None)
       \<and> [] @ [ustr ''node_modules''] \<noteq> [ustr ''node_modules'', ustr ''x.js'']
       \<and> list_all2 (\<lambda>line q. q \<noteq> [ustr ''node_modules'', ustr ''x.js''] \<and> (\<exists>pre. line = pre @ last q))
            (add_tree demo ch [] []) (tree_paths demo ch [])
       \<and> length ss = 2)"
proof -
  have a: "ustr ''node_modules'' \<in> exclude_dirs" by (simp add: exclude_dirs_def)
  have b: "ustr ''node_modules'' \<in> set [ustr ''node_modules'', ustr ''x.js'']" by simp
  have c: "file_at (tree demo) [ustr ''node_modules'', ustr ''x.js'']"
    by (simp add: demo_def demo_tree_def)
  have d: "length (files demo) = 2" by (simp add: demo_files)
  note t = exclusion_invariant [OF a b, of demo]
  from t [THEN conjunct2] obtain ch ss r where s: "children demo = Some ch" "sections demo = (ss, r)"
    "list_all2 (\<lambda>line q. q \<noteq> [ustr ''node_modules'', ustr ''x.js''] \<and> (\<exists>pre. line = pre @ last q))
            (add_tree demo ch [] []) (tree_paths demo ch [])"
    "r = None \<longrightarrow> length ss = length (files demo)"
    by (elim exE conjE)
  from writable_completes [OF demo_writable] s(2) have r: "r = None" by simp
  with s(4) d have l: "length ss = 2" by simp
  have n: "[] @ [ustr ''node_modules''] \<noteq> [ustr ''node_modules'', ustr ''x.js'']" by simp
  have "\<exists>ch ss. children demo = Some ch \<and> sections demo = (ss, None)
       \<and> [] @ [ustr ''node_modules''] \<noteq> [ustr ''node_modules'', ustr ''x.js'']
       \<and> list_all2 (\<lambda>line q. q \<noteq> [ustr ''node_modules'', ustr ''x.js''] \<and> (\<exists>pre. line = pre @ last q))
            (add_tree demo ch [] []) (tree_paths demo ch [])
       \<and> length ss = 2"
    by (intro exI [of _ ch], intro exI [of _ ss], intro conjI s(1) s(2) [unfolded r] n s(3) l)
  with a b c t [THEN conjunct1] show ?thesis by (intro conjI)
qed

text \<open>
  C2. With the root under a directory named \<open>dist\<close>, the file \<open>a.txt\<close> directly below
  the root, whose relative path has no excluded segment, is not collected: the test
  of the collector runs over the parts of the absolute path.
\<close>

theorem root_under_excluded_name:
  "root under_dist = [ustr ''/'', ustr ''dist'']
   \<and> file_at (tree under_dist) [ustr ''a.txt'']
   \<and> ustr ''a.txt'' \<notin> exclude_dirs
   \<and> files under_dist = []"
  by (simp add: under_dist_def demo_def demo_tree_def files_def filenames_def dirnames_def
      exclude_dirs_def ustr_def)




text \<open>
  C4, as stated, fails. The directory holds \<open>A\<close> and \<open>a\<close>, of 9000 bytes each, and the
  output file of an earlier run; one run is told \<open>A\<close> before \<open>a\<close>, the other \<open>a\<close> before
  \<open>A\<close>. The two names have one sort key in the tree, so each run prints them in the
  order of its discovery. Both runs collect the same files and read the same bytes,
  both end without an exception, and both write the section of the output file
  second; that section holds the first block of the document being written, tree
  included, and differs between the two runs.
\<close>

theorem sort_determinism_counterexample:
  "tree tie_Aa = Dir [(ustr ''A'', File), (ustr ''a'', File), (output_name, File)]
   \<and> tree tie_aA = Dir [(ustr ''a'', File), (ustr ''A'', File), (output_name, File)]
   \<and> mset (files tie_aA) = mset (files tie_Aa)
   \<and> root tie_aA = root tie_Aa \<and> rd tie_aA = rd tie_Aa \<and> flushed tie_aA = flushed tie_Aa
   \<and> lower tie_aA = lower tie_Aa
   \<and> snd (sections tie_Aa) = None \<and> snd (sections tie_aA) = None
   \<and> sort (files tie_Aa) ! 1 = output_path tie_Aa
   \<and> sort (files tie_aA) ! 1 = output_path tie_aA
   \<and> fst (sections tie_Aa) ! 1
       = delimiter [output_name] @ tie_head (ustr ''A'') (ustr ''a'') @ replicate 8012 120 @ [NL, NL]
   \<and> fst (sections tie_aA) ! 1
       = delimiter [output_name] @ tie_head (ustr ''a'') (ustr ''A'') @ replicate 8012 120 @ [NL, NL]
   \<and> fst (sections tie_aA) ! 1 \<noteq> fst (sections tie_Aa) ! 1"
proof -
  have t: "tree tie_Aa = Dir [(ustr ''A'', File), (ustr ''a'', File), (output_name, File)]"
    "tree tie_aA = Dir [(ustr ''a'', File), (ustr ''A'', File), (output_name, File)]"
    by (simp_all add: tie_aA_def tie_Aa_def)
  have m: "mset (files tie_aA) = mset (files tie_Aa)"
    by (simp add: tie_aA_files tie_Aa_files)
  have e: "root tie_aA = root tie_Aa" "rd tie_aA = rd tie_Aa" "flushed tie_aA = flushed tie_Aa"
    "lower tie_aA = lower tie_Aa"
    by (simp_all add: tie_aA_def)
  have o: "sort (files tie_Aa) ! 1 = output_path tie_Aa" "sort (files tie_aA) ! 1 = output_path tie_aA"
    unfolding tie_Aa_files tie_aA_files tie_sorted
    by (simp_all add: output_path_def tie_aA_def tie_Aa_def)
  note a = tie_Aa_section [THEN conjunct1] tie_aA_section [THEN conjunct1]
  note b = tie_Aa_section [THEN conjunct2] tie_aA_section [THEN conjunct2]
  have d: "fst (sections tie_aA) ! 1 \<noteq> fst (sections tie_Aa) ! 1"
    unfolding b using tie_head_differ by simp
  show ?thesis by (intro conjI t m e a o b d)
qed

text \<open>
  C4, amended. The sections written depend on the collected files as a multiset, not
  on the order of their discovery. For two runs with the same root, the same reads
  and the same flushing, whose file lists hold the same paths in any order: after
  the same text the loop writes the same sections; the sections of both documents
  follow one ascending list of the collected paths, each section under the delimiter
  line of the path at its place; the two documents have the same section at every
  place but that of the output file itself, whose content is read from the document
  being written; and when the two runs print the same tree, all their sections are
  equal.
\<close>

theorem sort_determinism:
  assumes "mset (files e') = mset (files e)" "root e' = root e" "rd e' = rd e"
    "flushed e' = flushed e"
  shows "(\<forall>w. write_loop e' w (sort (files e')) = write_loop e w (sort (files e)))
     \<and> (\<exists>ps ss r ss' r'. sorted ps \<and> mset ps = mset (files e)
          \<and> sections e = (ss, r) \<and> sections e' = (ss', r')
          \<and> (\<forall>i<length ss. \<exists>rel body. ps ! i = root e @ rel \<and> ss ! i = delimiter rel @ body)
          \<and> (\<forall>i<length ss'. \<exists>rel body. ps ! i = root e @ rel \<and> ss' ! i = delimiter rel @ body)
          \<and> (\<forall>i. i < length ss \<and> i < length ss' \<and> ps ! i \<noteq> output_path e \<longrightarrow> ss' ! i = ss ! i)
          \<and> (writable e \<longrightarrow> r = None \<and> r' = None \<and> length ss = length (files e)
                \<and> length ss' = length (files e))
          \<and> (\<forall>ch ch'. children e = Some ch \<and> children e' = Some ch'
                \<and> tree_lines e' ch' = tree_lines e ch \<longrightarrow> ss' = ss \<and> r' = r))"
proof -
  have s: "sort (files e') = sort (files e)"
    by (rule properties_for_sort) (simp_all add: assms(1))
  have w: "write_loop e' w ps = write_loop e w ps" for w ps
    by (rule write_loop_cong) (simp_all add: assms)
  obtain ch where ch: "children e = Some ch" using children_total by blast
  obtain ch' where ch': "children e' = Some ch'" using children_total by blast
  obtain ss r where ss: "sections e = (ss, r)" by (cases "sections e")
  obtain ss' r' where ss': "sections e' = (ss', r')" by (cases "sections e'")
  have a: "\<exists>rel body. sort (files e) ! i = root e @ rel \<and> ss ! i = delimiter rel @ body"
    if "i < length ss" for i
    using sections_nth [OF ch ss that] by (blast dest: section_body)
  have a': "\<exists>rel body. sort (files e) ! i = root e @ rel \<and> ss' ! i = delimiter rel @ body"
    if "i < length ss'" for i
  proof -
    from sections_nth [OF ch' ss' that]
    have "\<exists>rel body. sort (files e') ! i = root e' @ rel \<and> ss' ! i = delimiter rel @ body"
      by (blast dest: section_body)
    then show ?thesis by (simp add: s assms(2))
  qed
  have b: "ss' ! i = ss ! i"
    if "i < length ss \<and> i < length ss' \<and> sort (files e) ! i \<noteq> output_path e" for i
  proof -
    from that ch ss have "write_loop e (preamble (tree_lines e ch)) (sort (files e)) = (ss, r)"
      by (auto simp: sections_loop split: if_splits)
    moreover from that ch' ss' have "write_loop e (preamble (tree_lines e' ch')) (sort (files e)) = (ss', r')"
      by (auto simp: sections_loop s w split: if_splits)
    ultimately have "\<forall>i<length ss. sort (files e) ! i \<noteq> output_path e \<longrightarrow> ss' ! i = ss ! i"
      by (rule write_loop_two_prefixes [THEN conjunct2, THEN conjunct2])
    with that show ?thesis by simp
  qed
  have c: "r = None \<and> r' = None \<and> length ss = length (files e) \<and> length ss' = length (files e)"
    if "writable e"
  proof -
    from that have "writable e'" by (simp add: writable_cong [OF assms])
    from writable_completes [OF this] writable_completes [OF that] ss ss' mset_eq_length [OF assms(1)]
    show ?thesis by simp
  qed
  have d: "ss' = ss \<and> r' = r"
    if "children e = Some c1 \<and> children e' = Some c2 \<and> tree_lines e' c2 = tree_lines e c1" for c1 c2
  proof -
    from that ch ch' have "tree_lines e' ch' = tree_lines e ch" by simp
    with ch ch' have "sections e' = sections e" by (simp add: sections_loop s w)
    with ss ss' show ?thesis by simp
  qed
  have o: "sorted (sort (files e))" and m: "mset (sort (files e)) = mset (files e)" by simp_all
  have a1: "\<forall>i<length ss. \<exists>rel body. sort (files e) ! i = root e @ rel \<and> ss ! i = delimiter rel @ body"
    using a by blast
  have a2: "\<forall>i<length ss'. \<exists>rel body. sort (files e) ! i = root e @ rel \<and> ss' ! i = delimiter rel @ body"
    using a' by blast
  have b1: "\<forall>i. i < length ss \<and> i < length ss' \<and> sort (files e) ! i \<noteq> output_path e \<longrightarrow> ss' ! i = ss ! i"
    using b by blast
  have c1: "writable e \<longrightarrow> r = None \<and> r' = None \<and> length ss = length (files e)
                \<and> length ss' = length (files e)"
    using c by blast
  have d1: "\<forall>ch ch'. children e = Some ch \<and> children e' = Some ch'
                \<and> tree_lines e' ch' = tree_lines e ch \<longrightarrow> ss' = ss \<and> r' = r"
    using d by blast
  have "\<exists>ps ss r ss' r'. sorted ps \<and> mset ps = mset (files e)
          \<and> sections e = (ss, r) \<and> sections e' = (ss', r')
          \<and> (\<forall>i<length ss. \<exists>rel body. ps ! i = root e @ rel \<and> ss ! i = delimiter rel @ body)
          \<and> (\<forall>i<length ss'. \<exists>rel body. ps ! i = root e @ rel \<and> ss' ! i = delimiter rel @ body)
          \<and> (\<forall>i. i < length ss \<and> i < length ss' \<and> ps ! i \<noteq> output_path e \<longrightarrow> ss' ! i = ss ! i)
          \<and> (writable e \<longrightarrow> r = None \<and> r' = None \<and> length ss = length (files e)
                \<and> length ss' = length (files e))
          \<and> (\<forall>ch ch'. children e = Some ch \<and> children e' = Some ch'
                \<and> tree_lines e' ch' = tree_lines e ch \<longrightarrow> ss' = ss \<and> r' = r)"
    by (intro exI [of _ "sort (files e)"], intro exI [of _ ss], intro exI [of _ r],
        intro exI [of _ ss'], intro exI [of _ r'], intro conjI o m ss ss' a1 a2 b1 c1 d1)
  moreover have "\<forall>w. write_loop e' w (sort (files e')) = write_loop e w (sort (files e))"
    by (simp add: s w)
  ultimately show ?thesis by (intro conjI)
qed


theorem sort_determinism_witness:
  "mset (files listed_ba) = mset (files listed_ab) \<and> files listed_ba \<noteq> files listed_ab
   \<and> root listed_ba = root listed_ab \<and> rd listed_ba = rd listed_ab
   \<and> flushed listed_ba = flushed listed_ab
   \<and> writable listed_ab
   \<and> write_loop listed_ba [] (sort (files listed_ba)) = write_loop listed_ab [] (sort (files listed_ab))
   \<and> (\<exists>ps ss. sorted ps \<and> mset ps = mset (files listed_ab) \<and> length ss = 2
         \<and> sections listed_ab = (ss, None) \<and> sections listed_ba = (ss, None))"
proof -
  have a: "mset (files listed_ba) = mset (files listed_ab)"
    by (simp add: listed_ba_files listed_ab_files)
  have b: "root listed_ba = root listed_ab" "rd listed_ba = rd listed_ab"
    "flushed listed_ba = flushed listed_ab"
    by (simp_all add: listed_ba_def listed_ab_def)
  have c: "files listed_ba \<noteq> files listed_ab"
    by (simp add: listed_ba_files listed_ab_files ustr_def)
  have d: "output_path listed_ab \<notin> set (files listed_ab)"
    by (simp add: listed_ab_files)
       (simp add: output_path_def listed_ab_def demo_def output_name_def ustr_def)
  note t = sort_determinism [OF a b]
  from t [THEN conjunct1] have t1: "write_loop listed_ba [] (sort (files listed_ba))
      = write_loop listed_ab [] (sort (files listed_ab))"
    by (rule spec)
  from t [THEN conjunct2] obtain ps ss r ss' r' where o: "sorted ps"
    and m: "mset ps = mset (files listed_ab)"
    and s: "sections listed_ab = (ss, r)" and s': "sections listed_ba = (ss', r')"
    and eq: "\<forall>i. i < length ss \<and> i < length ss' \<and> ps ! i \<noteq> output_path listed_ab
           \<longrightarrow> ss' ! i = ss ! i"
    and w: "writable listed_ab \<longrightarrow> r = None \<and> r' = None \<and> length ss = length (files listed_ab)
                \<and> length ss' = length (files listed_ab)"
    by (elim exE conjE)
  from w listed_ab_writable have n: "r = None" "r' = None" and l: "length ss = 2" "length ss' = 2"
    by (simp_all add: listed_ab_files)
  from m have sp: "set ps = set (files listed_ab)" by (rule mset_eq_setD)
  from m have lp: "length ps = 2" using mset_eq_length [OF m] by (simp add: listed_ab_files)
  have "ss' ! i = ss ! i" if "i < length ss'" for i
  proof -
    from that l lp have "ps ! i \<in> set ps" by simp
    with sp d have "ps ! i \<noteq> output_path listed_ab" by auto
    with eq that l show ?thesis by simp
  qed
  with l have "ss' = ss" by (intro nth_equalityI) simp_all
  with s s' n have x: "sections listed_ab = (ss, None)" "sections listed_ba = (ss, None)"
    by simp_all
  have "\<exists>ps ss. sorted ps \<and> mset ps = mset (files listed_ab) \<and> length ss = 2
         \<and> sections listed_ab = (ss, None) \<and> sections listed_ba = (ss, None)"
    by (intro exI [of _ ps], intro exI [of _ ss], intro conjI o m l(1) x)
  then show ?thesis by (intro conjI a b c listed_ab_writable t1)
qed

text \<open>
  C5. When the decoded content of a file does not end with a line break, its section
  is the delimiter line, the content, one appended line break and the separating
  line break; when it does, the section is the delimiter line, the content and the
  separating line break alone. The decoded content can always be written; the turn
  writes no section only when the delimiter line cannot be encoded.
\<close>

theorem trailing_newline:
  assumes "read_text_safely (read_at e (w @ delimiter rel) (root e @ rel)) = Inr content"
  shows "encodable content
       \<and> (\<not> endswith_nl content \<longrightarrow>
           file_section e w (root e @ rel) =
             (if encodable (delimiter rel) then Inr (delimiter rel @ content @ [NL] @ [NL])
              else Inl (UnicodeEncodeError, [])))
       \<and> (endswith_nl content \<longrightarrow>
           file_section e w (root e @ rel) =
             (if encodable (delimiter rel) then Inr (delimiter rel @ content @ [NL])
              else Inl (UnicodeEncodeError, [])))"
  using assms read_text_safely_encodable [OF assms]
  by (simp add: file_section_under_root file_content_def)

theorem trailing_newline_witness:
  "read_text_safely (read_at demo ([] @ delimiter [ustr ''a.txt'']) (root demo @ [ustr ''a.txt'']))
     = Inr (ustr ''hi'')
   \<and> \<not> endswith_nl (ustr ''hi'')
   \<and> encodable (delimiter [ustr ''a.txt''])
   \<and> file_section demo [] (root demo @ [ustr ''a.txt''])
     = Inr (delimiter [ustr ''a.txt''] @ ustr ''hi'' @ [NL] @ [NL])"
proof -
  have p: "root demo @ [ustr ''a.txt''] \<noteq> output_path demo"
    by (simp add: demo_def output_path_def output_name_def ustr_def)
  have "read_at demo ([] @ delimiter [ustr ''a.txt'']) (root demo @ [ustr ''a.txt'']) k = Bytes ''hi''" for k
    by (simp add: read_at_def p) (simp add: demo_def demo_rd_def)
  then have a: "read_text_safely (read_at demo ([] @ delimiter [ustr ''a.txt'']) (root demo @ [ustr ''a.txt'']))
     = Inr (ustr ''hi'')"
    by (simp add: read_text_safely_def read_text_def decode_def ustr_def CR_def NL_def)
  have b: "\<not> endswith_nl (ustr ''hi'')" by (simp add: endswith_nl_def ustr_def NL_def)
  have c: "encodable (delimiter [ustr ''a.txt''])" by (rule encodable_delimiter) simp
  from trailing_newline [OF a] a b c show ?thesis by simp
qed













end
